theory Spec2Isabelle
  imports Main "HOL-Library.Word" "HOL-Library.Multiset"
begin

unbundle bit_operations_syntax

section \<open>IPv6 fragment reassembly (src/ipv6\_reassembly.cpp)\<close>

text \<open>
  The engine of \<^verbatim>\<open>ipv6_reassembly.cpp\<close> keeps its sources and flows in heap objects
  linked by pointers. The embedding keeps the pointers: a source and a flow are named by
  an address, the objects live in two stores (partial maps from addresses to records),
  and every intrusive doubly-linked list (a bucket's chain of sources, a source's chain
  of flows, the timer list) is the HOL list of the addresses of its nodes, head first.

  The result of every operation is an \<open>option\<close>: \<open>None\<close> stands for a run that has no
  defined behaviour in the model: undefined behaviour of C (a division by zero, a read
  through a dangling pointer, a write outside an allocated block), a list node that is
  unlinked from a list it is not on, an address returned by \<^verbatim>\<open>malloc\<close> that is
  still in use, or a case the specification of a helper leaves open.
\<close>

type_synonym u8 = "8 word"
type_synonym u16 = "16 word"
type_synonym u32 = "32 word"
type_synonym address = nat
type_synonym in6_addr = "u8 list"
type_synonym source_ptr = nat
type_synonym flow_ptr = nat

subsection \<open>Caller's memory\<close>

text \<open>The \<open>n\<close> bytes found at address \<open>a\<close> of the caller's memory.\<close>

definition bytes_at :: "(address \<Rightarrow> u8) \<Rightarrow> address \<Rightarrow> nat \<Rightarrow> u8 list" where
  "bytes_at mem a n = map mem [a ..< a + n]"

text \<open>\<^verbatim>\<open>struct ip6_hdr\<close>: the source address is bytes 8..23, the destination bytes 24..39,
  the payload length bytes 4..5 and the next header byte 6.\<close>

definition ip6_src :: "(address \<Rightarrow> u8) \<Rightarrow> address \<Rightarrow> in6_addr" where
  "ip6_src mem ip6 = bytes_at mem (ip6 + 8) 16"

definition ip6_dst :: "(address \<Rightarrow> u8) \<Rightarrow> address \<Rightarrow> in6_addr" where
  "ip6_dst mem ip6 = bytes_at mem (ip6 + 24) 16"

subsection \<open>The fragment list and the timer list (reassembly.h)\<close>

record dpi_reassembly_fragment =
  frag_offset :: u32
  frag_end :: u32
  frag_ptr :: "u8 list"

text \<open>The bytes a fragment list holds: the sum of \<^verbatim>\<open>end - offset\<close> over its nodes.\<close>

fun fragment_bytes :: "dpi_reassembly_fragment list \<Rightarrow> u32" where
  "fragment_bytes [] = 0"
| "fragment_bytes (g # gs) = (frag_end g - frag_offset g) + fragment_bytes gs"

text \<open>
  Modelled from the spec: \<^verbatim>\<open>dpi_reassembly_insert_fragment\<close> of reassembly.c, which is
  not among the sources. Section 4.1: the list is sorted by offset; the newcomer keeps
  the bytes that extend beyond the interval before it; the intervals after it are
  removed when it covers them and shrunk at their front otherwise; the operation
  reports the bytes released from displaced intervals and the bytes added. The spec
  gives \<open>offset < end\<close> as precondition: the model is \<open>None\<close> elsewhere.
\<close>

fun displace_followers ::
  "u32 \<Rightarrow> dpi_reassembly_fragment list \<Rightarrow> dpi_reassembly_fragment list \<times> u32" where
  "displace_followers e [] = ([], 0)"
| "displace_followers e (g # gs) =
     (if e \<le> frag_offset g then (g # gs, 0)
      else if frag_end g \<le> e then
        (case displace_followers e gs of
           (r, n) \<Rightarrow> (r, (frag_end g - frag_offset g) + n))
      else (g\<lparr>frag_offset := e,
               frag_ptr := drop (unat (e - frag_offset g)) (frag_ptr g)\<rparr> # gs,
            e - frag_offset g))"

definition dpi_reassembly_insert_fragment ::
  "dpi_reassembly_fragment list \<Rightarrow> u8 list \<Rightarrow> u32 \<Rightarrow> u32 \<Rightarrow>
   (dpi_reassembly_fragment list \<times> u32 \<times> u32) option" where
  "dpi_reassembly_insert_fragment frags data offset end' =
     (if offset < end' then
        (let leading = takeWhile (\<lambda>g. frag_offset g < offset) frags;
             trailing = dropWhile (\<lambda>g. frag_offset g < offset) frags;
             start = (if leading = [] then offset
                      else if offset < frag_end (last leading) then frag_end (last leading)
                      else offset)
         in if end' \<le> start then Some (frags, 0, 0)
            else (case displace_followers end' trailing of
                    (followers, bytes_removed) \<Rightarrow>
                      Some (leading
                            @ \<lparr>frag_offset = start, frag_end = end',
                               frag_ptr = drop (unat (start - offset)) data\<rparr>
                            # followers,
                            bytes_removed, end' - start)))
      else None)"

text \<open>
  Modelled from the spec: \<^verbatim>\<open>dpi_reassembly_ip_check_train_of_contiguous_fragments\<close>
  of reassembly.c. Section 4.1 (IsContiguous): the intervals cover the datagram from
  byte 0 with no gap. The call in the source passes the list alone, so the model has no
  length argument.
\<close>

fun contiguous_from :: "u32 \<Rightarrow> dpi_reassembly_fragment list \<Rightarrow> bool" where
  "contiguous_from e [] = True"
| "contiguous_from e (g # gs) =
     (if frag_offset g \<le> e then contiguous_from (frag_end g) gs else False)"

definition dpi_reassembly_ip_check_train_of_contiguous_fragments ::
  "dpi_reassembly_fragment list \<Rightarrow> bool" where
  "dpi_reassembly_ip_check_train_of_contiguous_fragments frags =
     (case frags of [] \<Rightarrow> False | g # gs \<Rightarrow> contiguous_from 0 frags)"

text \<open>
  Modelled from the spec: \<^verbatim>\<open>dpi_reassembly_ip_compact_fragments\<close> of reassembly.c.
  Section 4.1 (Compact): writes the intervals in order into the buffer and returns the
  byte count written, or \<open>-1\<close> when the byte count disagrees with the declared length.
  The model returns the count and the bytes written.
\<close>

definition dpi_reassembly_ip_compact_fragments ::
  "dpi_reassembly_fragment list \<Rightarrow> u32 \<Rightarrow> int \<times> u8 list" where
  "dpi_reassembly_ip_compact_fragments frags len' =
     (if fragment_bytes frags = len' then (uint (fragment_bytes frags), concat (map frag_ptr frags))
      else (- 1, concat (map frag_ptr frags)))"

text \<open>
  Modelled from the spec: the timer list of reassembly.c. Section 4.2: Add appends at
  the tail, Remove unlinks the given node, the head is the oldest timer. A timer is a
  field of its flow and its \<^verbatim>\<open>data\<close> points back to that flow, so the list holds the
  addresses of the flows, and the expiration time is a field of the flow.
\<close>

definition dpi_reassembly_add_timer :: "flow_ptr list \<Rightarrow> flow_ptr \<Rightarrow> flow_ptr list" where
  "dpi_reassembly_add_timer timer_list t = timer_list @ [t]"

definition dpi_reassembly_delete_timer :: "flow_ptr list \<Rightarrow> flow_ptr \<Rightarrow> flow_ptr list" where
  "dpi_reassembly_delete_timer timer_list t = remove1 t timer_list"

text \<open>Modelled from the spec: \<^verbatim>\<open>dpi_v6_addresses_equal\<close> of utils.h compares the
  16 bytes of two addresses (section 4.3).\<close>

definition dpi_v6_addresses_equal :: "in6_addr \<Rightarrow> in6_addr \<Rightarrow> bool" where
  "dpi_v6_addresses_equal x y = (x = y)"

subsection \<open>The structures\<close>

record dpi_ipv6_fragmentation_flow =
  unfragmentable :: "u8 list option"
  unfragmentable_length :: u16
  len :: u16
  ident :: u32
  dstaddr :: in6_addr
  fragments :: "dpi_reassembly_fragment list"
  timer_expiration_time :: u32
  source :: source_ptr

record dpi_ipv6_fragmentation_source =
  flows :: "flow_ptr list"
  source_used_mem :: u32
  ipv6_srcaddr :: in6_addr
  row :: u16

text \<open>
  The state: the fields of \<^verbatim>\<open>dpi_ipv6_fragmentation_state_t\<close> (\<open>timers\<close> is the list
  from \<^verbatim>\<open>timer_head\<close> to \<^verbatim>\<open>timer_tail\<close>), and the two object stores.
\<close>

record dpi_ipv6_fragmentation_state =
  table :: "source_ptr list list"
  total_used_mem :: u32
  table_size :: u16
  timers :: "flow_ptr list"
  per_source_memory_limit :: u32
  total_memory_limit :: u32
  timeout :: u8
  source_heap :: "source_ptr \<Rightarrow> dpi_ipv6_fragmentation_source option"
  flow_heap :: "flow_ptr \<Rightarrow> dpi_ipv6_fragmentation_flow option"

text \<open>
  What the build fixes and the sources do not show: the two \<^verbatim>\<open>sizeof\<close> values and the
  defaults of the configuration header.
\<close>

record build_constants =
  sizeof_source :: u32
  sizeof_flow :: u32
  DEFAULT_PER_HOST_MEMORY_LIMIT :: u32
  DEFAULT_TOTAL_MEMORY_LIMIT :: u32
  DEFAULT_REASSEMBLY_TIMEOUT :: u8

text \<open>
  What \<^verbatim>\<open>malloc\<close> answers during one call of the entry point, per allocation site:
  the address of the new source or flow (\<open>None\<close> is \<^verbatim>\<open>NULL\<close>), and whether the two
  byte buffers are obtained.
\<close>

record allocator =
  malloc_source :: "source_ptr option"
  malloc_flow :: "flow_ptr option"
  malloc_unfragmentable :: bool
  malloc_datagram :: bool

subsection \<open>Creation and configuration\<close>

text \<open>\<^verbatim>\<open>dpi_reordering_enable_ipv6_fragmentation\<close>; the two arguments say whether
  \<^verbatim>\<open>calloc\<close> and \<^verbatim>\<open>malloc\<close> succeed.\<close>

definition dpi_reordering_enable_ipv6_fragmentation ::
  "build_constants \<Rightarrow> bool \<Rightarrow> bool \<Rightarrow> u16 \<Rightarrow> dpi_ipv6_fragmentation_state option" where
  "dpi_reordering_enable_ipv6_fragmentation K calloc_state malloc_table table_size' =
     (if calloc_state then
        (if malloc_table then
           Some \<lparr>table = replicate (unat table_size') [],
                 total_used_mem = 0,
                 table_size = table_size',
                 timers = [],
                 per_source_memory_limit = DEFAULT_PER_HOST_MEMORY_LIMIT K,
                 total_memory_limit = DEFAULT_TOTAL_MEMORY_LIMIT K,
                 timeout = DEFAULT_REASSEMBLY_TIMEOUT K,
                 source_heap = Map.empty,
                 flow_heap = Map.empty\<rparr>
         else None)
      else None)"

definition dpi_reordering_ipv6_fragmentation_set_per_host_memory_limit ::
  "dpi_ipv6_fragmentation_state \<Rightarrow> u32 \<Rightarrow> dpi_ipv6_fragmentation_state" where
  "dpi_reordering_ipv6_fragmentation_set_per_host_memory_limit frag_state per_host_memory_limit =
     frag_state\<lparr>per_source_memory_limit := per_host_memory_limit\<rparr>"

definition dpi_reordering_ipv6_fragmentation_set_total_memory_limit ::
  "dpi_ipv6_fragmentation_state \<Rightarrow> u32 \<Rightarrow> dpi_ipv6_fragmentation_state" where
  "dpi_reordering_ipv6_fragmentation_set_total_memory_limit frag_state total_memory_limit' =
     frag_state\<lparr>total_memory_limit := total_memory_limit'\<rparr>"

definition dpi_reordering_ipv6_fragmentation_set_reassembly_timeout ::
  "dpi_ipv6_fragmentation_state \<Rightarrow> u8 \<Rightarrow> dpi_ipv6_fragmentation_state" where
  "dpi_reordering_ipv6_fragmentation_set_reassembly_timeout frag_state timeout_seconds =
     frag_state\<lparr>timeout := timeout_seconds\<rparr>"

subsection \<open>The hash function and the source table\<close>

text \<open>
  \<^verbatim>\<open>h^=(h<<5)+(h>>2)+addr.s6_addr[i]\<close> on a 16-bit \<open>h\<close>: the sum is computed in
  \<^verbatim>\<open>int\<close> and truncated to 16 bits by the assignment, which is the 16-bit sum.
  \<^verbatim>\<open>h%state->table_size\<close> is undefined when the table size is 0.
\<close>

definition hash_step :: "u16 \<Rightarrow> u8 \<Rightarrow> u16" where
  "hash_step h b = h XOR (push_bit 5 h + drop_bit 2 h + ucast b)"

definition dpi_ipv6_fragmentation_hash_function ::
  "dpi_ipv6_fragmentation_state \<Rightarrow> in6_addr \<Rightarrow> u16 option" where
  "dpi_ipv6_fragmentation_hash_function state addr =
     (let h = foldl hash_step 0 addr
      in if table_size state = 0 then None else Some (h mod table_size state))"

text \<open>The loop over a bucket's chain in \<^verbatim>\<open>dpi_ipv6_fragmentation_find_or_create_source\<close>.\<close>

fun find_source ::
  "(source_ptr \<Rightarrow> dpi_ipv6_fragmentation_source option) \<Rightarrow> source_ptr list \<Rightarrow> in6_addr \<Rightarrow>
   source_ptr option option" where
  "find_source H [] addr = Some None"
| "find_source H (p # ps) addr =
     (case H p of
        None \<Rightarrow> None
      | Some src \<Rightarrow>
          if dpi_v6_addresses_equal (ipv6_srcaddr src) addr then Some (Some p)
          else find_source H ps addr)"

definition dpi_ipv6_fragmentation_find_or_create_source ::
  "build_constants \<Rightarrow> allocator \<Rightarrow> dpi_ipv6_fragmentation_state \<Rightarrow> in6_addr \<Rightarrow>
   (source_ptr option \<times> dpi_ipv6_fragmentation_state) option" where
  "dpi_ipv6_fragmentation_find_or_create_source K M state addr =
     (case dpi_ipv6_fragmentation_hash_function state addr of
        None \<Rightarrow> None
      | Some hash_index \<Rightarrow>
          if unat hash_index < length (table state) then
            (let head = table state ! unat hash_index in
             case find_source (source_heap state) head addr of
               None \<Rightarrow> None
             | Some (Some p) \<Rightarrow> Some (Some p, state)
             | Some None \<Rightarrow>
                 (case malloc_source M of
                    None \<Rightarrow> Some (None, state)
                  | Some p \<Rightarrow>
                      if source_heap state p = None then
                        Some (Some p,
                          state\<lparr>source_heap := (source_heap state)(p \<mapsto>
                                    \<lparr>flows = [],
                                     source_used_mem = sizeof_source K,
                                     ipv6_srcaddr = addr,
                                     row = hash_index\<rparr>),
                                total_used_mem := total_used_mem state + sizeof_source K,
                                table := (table state)[unat hash_index := p # head]\<rparr>)
                      else None))
          else None)"

subsection \<open>Flows\<close>

text \<open>The loop of \<^verbatim>\<open>dpi_ipv6_fragmentation_delete_flow\<close> that releases the fragments,
  as it acts on one memory counter.\<close>

fun release_fragments :: "u32 \<Rightarrow> dpi_reassembly_fragment list \<Rightarrow> u32" where
  "release_fragments m [] = m"
| "release_fragments m (g # gs) = release_fragments (m - (frag_end g - frag_offset g)) gs"

definition release_unfragmentable :: "u32 \<Rightarrow> dpi_ipv6_fragmentation_flow \<Rightarrow> u32" where
  "release_unfragmentable m fl =
     (case unfragmentable fl of
        None \<Rightarrow> m
      | Some u \<Rightarrow> m - ucast (unfragmentable_length fl))"

definition dpi_ipv6_fragmentation_delete_flow ::
  "build_constants \<Rightarrow> dpi_ipv6_fragmentation_state \<Rightarrow> flow_ptr \<Rightarrow>
   dpi_ipv6_fragmentation_state option" where
  "dpi_ipv6_fragmentation_delete_flow K state flow =
     (case flow_heap state flow of
        None \<Rightarrow> None
      | Some fl \<Rightarrow>
          (case source_heap state (source fl) of
             None \<Rightarrow> None
           | Some src \<Rightarrow>
               if flow \<in> set (timers state) then
                 if flow \<in> set (flows src) then
                   Some (state
                     \<lparr>total_used_mem :=
                        release_unfragmentable
                          (release_fragments (total_used_mem state - sizeof_flow K)
                             (fragments fl)) fl,
                      timers := dpi_reassembly_delete_timer (timers state) flow,
                      source_heap := (source_heap state)(source fl \<mapsto>
                        src\<lparr>source_used_mem :=
                              release_unfragmentable
                                (release_fragments (source_used_mem src - sizeof_flow K)
                                   (fragments fl)) fl,
                            flows := remove1 flow (flows src)\<rparr>),
                      flow_heap := (flow_heap state)(flow := None)\<rparr>)
                 else None
               else None))"

text \<open>The loop over a source's chain in \<^verbatim>\<open>dpi_ipv6_fragmentation_find_or_create_flow\<close>.\<close>

fun find_flow ::
  "(flow_ptr \<Rightarrow> dpi_ipv6_fragmentation_flow option) \<Rightarrow> flow_ptr list \<Rightarrow> u32 \<Rightarrow> in6_addr \<Rightarrow>
   flow_ptr option option" where
  "find_flow H [] id' dst = Some None"
| "find_flow H (f # fs) id' dst =
     (case H f of
        None \<Rightarrow> None
      | Some fl \<Rightarrow>
          if id' = ident fl \<and> dpi_v6_addresses_equal dst (dstaddr fl) then Some (Some f)
          else find_flow H fs id' dst)"

definition dpi_ipv6_fragmentation_find_or_create_flow ::
  "build_constants \<Rightarrow> allocator \<Rightarrow> dpi_ipv6_fragmentation_state \<Rightarrow> source_ptr \<Rightarrow> u32 \<Rightarrow>
   in6_addr \<Rightarrow> u32 \<Rightarrow> (flow_ptr option \<times> dpi_ipv6_fragmentation_state) option" where
  "dpi_ipv6_fragmentation_find_or_create_flow K M state source' id' dst current_time =
     (case source_heap state source' of
        None \<Rightarrow> None
      | Some src \<Rightarrow>
          (case find_flow (flow_heap state) (flows src) id' dst of
             None \<Rightarrow> None
           | Some (Some f) \<Rightarrow> Some (Some f, state)
           | Some None \<Rightarrow>
               (case malloc_flow M of
                  None \<Rightarrow> Some (None, state)
                | Some f \<Rightarrow>
                    if flow_heap state f = None then
                      Some (Some f,
                        state\<lparr>source_heap := (source_heap state)(source' \<mapsto>
                                  src\<lparr>source_used_mem := source_used_mem src + sizeof_flow K,
                                      flows := f # flows src\<rparr>),
                              total_used_mem := total_used_mem state + sizeof_flow K,
                              timers := dpi_reassembly_add_timer (timers state) f,
                              flow_heap := (flow_heap state)(f \<mapsto>
                                  \<lparr>unfragmentable = None,
                                   unfragmentable_length = 0,
                                   len = 0,
                                   ident = id',
                                   dstaddr = dst,
                                   fragments = [],
                                   timer_expiration_time = current_time + ucast (timeout state),
                                   source = source'\<rparr>)\<rparr>)
                    else None)))"

subsection \<open>Deleting a source\<close>

text \<open>The loop of \<^verbatim>\<open>dpi_ipv6_fragmentation_delete_source\<close>: \<^verbatim>\<open>temp_flow\<close> is read before
  the flow is deleted, so the loop walks the chain as it was on entry.\<close>

fun delete_flows ::
  "build_constants \<Rightarrow> dpi_ipv6_fragmentation_state \<Rightarrow> flow_ptr list \<Rightarrow>
   dpi_ipv6_fragmentation_state option" where
  "delete_flows K state [] = Some state"
| "delete_flows K state (f # fs) =
     (case dpi_ipv6_fragmentation_delete_flow K state f of
        None \<Rightarrow> None
      | Some s1 \<Rightarrow> delete_flows K s1 fs)"

definition dpi_ipv6_fragmentation_delete_source ::
  "build_constants \<Rightarrow> dpi_ipv6_fragmentation_state \<Rightarrow> source_ptr \<Rightarrow>
   dpi_ipv6_fragmentation_state option" where
  "dpi_ipv6_fragmentation_delete_source K state source' =
     (case source_heap state source' of
        None \<Rightarrow> None
      | Some src \<Rightarrow>
          (case delete_flows K state (flows src) of
             None \<Rightarrow> None
           | Some s1 \<Rightarrow>
               if unat (row src) < length (table s1) then
                 if source' \<in> set (table s1 ! unat (row src)) then
                   Some (s1\<lparr>table := (table s1)[unat (row src) :=
                                        remove1 source' (table s1 ! unat (row src))],
                            source_heap := (source_heap s1)(source' := None),
                            total_used_mem := total_used_mem s1 - sizeof_source K\<rparr>)
                 else None
               else None))"

text \<open>The two lines that follow a deletion in the source:
  \<^verbatim>\<open>dpi_ipv6_fragmentation_delete_flow(state, flow); if(source->flows==NULL)
  dpi_ipv6_fragmentation_delete_source(state,source);\<close>\<close>

definition delete_flow_and_empty_source ::
  "build_constants \<Rightarrow> dpi_ipv6_fragmentation_state \<Rightarrow> flow_ptr \<Rightarrow> source_ptr \<Rightarrow>
   dpi_ipv6_fragmentation_state option" where
  "delete_flow_and_empty_source K state flow source' =
     (case dpi_ipv6_fragmentation_delete_flow K state flow of
        None \<Rightarrow> None
      | Some s1 \<Rightarrow>
          (case source_heap s1 source' of
             None \<Rightarrow> None
           | Some src \<Rightarrow>
               if flows src = [] then dpi_ipv6_fragmentation_delete_source K s1 source'
               else Some s1))"

subsection \<open>Building the datagram\<close>

text \<open>
  \<^verbatim>\<open>dpi_ipv6_fragmentation_build_complete_datagram\<close>. The payload length is stored with
  \<^verbatim>\<open>htons\<close>: byte 4 is the high byte, byte 5 the low one. The write is outside the
  buffer when the buffer has fewer than 6 bytes.
\<close>

definition dpi_ipv6_fragmentation_build_complete_datagram ::
  "build_constants \<Rightarrow> allocator \<Rightarrow> dpi_ipv6_fragmentation_state \<Rightarrow> flow_ptr \<Rightarrow>
   (u8 list option \<times> dpi_ipv6_fragmentation_state) option" where
  "dpi_ipv6_fragmentation_build_complete_datagram K M state flow =
     (case flow_heap state flow of
        None \<Rightarrow> None
      | Some fl \<Rightarrow>
          (let len' = len fl;
               source' = source fl;
               tot_len = (ucast (unfragmentable_length fl) + ucast len' :: u32)
           in if tot_len > 65535 then
                map_option (Pair None) (delete_flow_and_empty_source K state flow source')
              else if \<not> malloc_datagram M then
                map_option (Pair None) (delete_flow_and_empty_source K state flow source')
              else
                (case unfragmentable fl of
                   None \<Rightarrow> None
                 | Some u \<Rightarrow>
                     (case dpi_reassembly_ip_compact_fragments (fragments fl) (ucast len') of
                        (count', pkt_data) \<Rightarrow>
                          if count' = - 1 then Some (None, state)
                          else
                            (let plen = (word_of_int
                                   (count' + uint (unfragmentable_length fl) - 40) :: u16);
                                 pkt = take (unat (unfragmentable_length fl)) u @ pkt_data
                             in if 5 < length pkt then
                                  map_option
                                    (Pair (Some (pkt[4 := ucast (drop_bit 8 plen),
                                                     5 := ucast plen])))
                                    (delete_flow_and_empty_source K state flow source')
                                else None)))))"

subsection \<open>The entry point\<close>

text \<open>A loop or a step of the entry point either makes the function return
  \<^verbatim>\<open>NULL\<close> or lets it go on, with the state it leaves.\<close>

datatype 'a control = Return_NULL 'a | Go_on 'a

lemma delete_flow_timers:
  assumes "dpi_ipv6_fragmentation_delete_flow K s f = Some s1"
  shows "length (timers s1) < length (timers s)"
proof -
  from assms have mem: "f \<in> set (timers s)" and eq: "timers s1 = remove1 f (timers s)"
    by (auto simp: dpi_ipv6_fragmentation_delete_flow_def dpi_reassembly_delete_timer_def
          split: option.splits if_splits)
  from mem have "0 < length (timers s)"
    by (rule length_pos_if_in_set)
  with mem eq show ?thesis
    by (simp add: length_remove1)
qed

text \<open>
  Lines 609--620: while the source has flows and its memory exceeds the per-source
  limit, the flow at the head of its chain is deleted; when the chain becomes empty the
  source is deleted and the function returns \<^verbatim>\<open>NULL\<close>.
\<close>

function per_source_eviction ::
  "build_constants \<Rightarrow> dpi_ipv6_fragmentation_state \<Rightarrow> source_ptr \<Rightarrow>
   dpi_ipv6_fragmentation_state control option" where
  "per_source_eviction K state source' =
     (case source_heap state source' of
        None \<Rightarrow> None
      | Some src \<Rightarrow>
          (case flows src of
             [] \<Rightarrow> Some (Go_on state)
           | f # fs \<Rightarrow>
               if source_used_mem src > per_source_memory_limit state then
                 (case dpi_ipv6_fragmentation_delete_flow K state f of
                    None \<Rightarrow> None
                  | Some s1 \<Rightarrow>
                      (case source_heap s1 source' of
                         None \<Rightarrow> None
                       | Some src1 \<Rightarrow>
                           if flows src1 = [] then
                             map_option Return_NULL
                               (dpi_ipv6_fragmentation_delete_source K s1 source')
                           else per_source_eviction K s1 source'))
               else Some (Go_on state)))"
  by pat_completeness auto
termination
  by (relation "measure (\<lambda>(K, state, source'). length (timers state))")
     (auto dest: delete_flow_timers)

declare per_source_eviction.simps [simp del]

text \<open>
  Lines 630--645: while the timer list is not empty and its head is expired or the
  total memory has reached the limit, the flow of the head timer is deleted. The test
  that follows reads \<^verbatim>\<open>source->flows\<close>, the chain of the source of the current
  fragment, and deletes \<^verbatim>\<open>tmpsource\<close>, the source of the deleted flow.
\<close>

function timer_sweep ::
  "build_constants \<Rightarrow> dpi_ipv6_fragmentation_state \<Rightarrow> source_ptr \<Rightarrow> u32 \<Rightarrow>
   dpi_ipv6_fragmentation_state control option" where
  "timer_sweep K state source' current_time =
     (case timers state of
        [] \<Rightarrow> Some (Go_on state)
      | t # ts \<Rightarrow>
          (case flow_heap state t of
             None \<Rightarrow> None
           | Some tf \<Rightarrow>
               if timer_expiration_time tf < current_time
                  \<or> total_used_mem state \<ge> total_memory_limit state then
                 (let tmpsource = source tf in
                  case dpi_ipv6_fragmentation_delete_flow K state t of
                    None \<Rightarrow> None
                  | Some s1 \<Rightarrow>
                      (case source_heap s1 source' of
                         None \<Rightarrow> None
                       | Some src \<Rightarrow>
                           if flows src = [] then
                             map_option Return_NULL
                               (dpi_ipv6_fragmentation_delete_source K s1 tmpsource)
                           else timer_sweep K s1 source' current_time))
               else Some (Go_on state)))"
  by pat_completeness auto
termination
  by (relation "measure (\<lambda>(K, state, source', current_time). length (timers state))")
     (auto dest: delete_flow_timers)

declare timer_sweep.simps [simp del]

text \<open>
  Lines 680--697: the unfragmentable part is stored when the flow has none. The next
  header is byte 6 of the copy; the write is outside the copy when it has fewer than 7
  bytes.
\<close>

definition store_unfragmentable ::
  "build_constants \<Rightarrow> allocator \<Rightarrow> (address \<Rightarrow> u8) \<Rightarrow> dpi_ipv6_fragmentation_state \<Rightarrow>
   source_ptr \<Rightarrow> flow_ptr \<Rightarrow> address \<Rightarrow> u16 \<Rightarrow> u8 \<Rightarrow>
   dpi_ipv6_fragmentation_state control option" where
  "store_unfragmentable K M mem state source' flow unfragmentable_start unfragmentable_size
     next_header =
     (case flow_heap state flow of
        None \<Rightarrow> None
      | Some fl \<Rightarrow>
          (case unfragmentable fl of
             Some u \<Rightarrow> Some (Go_on state)
           | None \<Rightarrow>
               if malloc_unfragmentable M then
                 (case source_heap state source' of
                    None \<Rightarrow> None
                  | Some src \<Rightarrow>
                      if 6 < unat unfragmentable_size then
                        Some (Go_on (state
                          \<lparr>flow_heap := (flow_heap state)(flow \<mapsto>
                             fl\<lparr>unfragmentable :=
                                   Some ((bytes_at mem unfragmentable_start
                                            (unat unfragmentable_size))[6 := next_header]),
                                 unfragmentable_length := unfragmentable_size\<rparr>),
                           total_used_mem := total_used_mem state + ucast unfragmentable_size,
                           source_heap := (source_heap state)(source' \<mapsto>
                             src\<lparr>source_used_mem :=
                                   source_used_mem src + ucast unfragmentable_size\<rparr>)\<rparr>))
                      else None)
               else map_option Return_NULL (dpi_ipv6_fragmentation_delete_flow K state flow)))"

text \<open>Lines 704--756: the last-fragment test, the insertion, the accounting and the
  completeness check.\<close>

definition insert_and_check ::
  "build_constants \<Rightarrow> allocator \<Rightarrow> (address \<Rightarrow> u8) \<Rightarrow> dpi_ipv6_fragmentation_state \<Rightarrow>
   source_ptr \<Rightarrow> flow_ptr \<Rightarrow> address \<Rightarrow> u16 \<Rightarrow> u16 \<Rightarrow> u32 \<Rightarrow> u8 \<Rightarrow>
   (u8 list option \<times> dpi_ipv6_fragmentation_state) option" where
  "insert_and_check K M mem state source' flow fragmentable_start fragmentable_size offset end'
     more_fragments =
     (case flow_heap state flow of
        None \<Rightarrow> None
      | Some fl \<Rightarrow>
          if more_fragments = 0 \<and> len fl \<noteq> 0 then Some (None, state)
          else
            (let fl1 = (if more_fragments = 0 then fl\<lparr>len := ucast end'\<rparr> else fl) in
             case dpi_reassembly_insert_fragment (fragments fl1)
                    (bytes_at mem fragmentable_start (unat fragmentable_size))
                    (ucast offset) end' of
               None \<Rightarrow> None
             | Some (frags, bytes_removed, bytes_inserted) \<Rightarrow>
                 (case source_heap state source' of
                    None \<Rightarrow> None
                  | Some src \<Rightarrow>
                      (let s1 = state
                         \<lparr>flow_heap := (flow_heap state)(flow \<mapsto> fl1\<lparr>fragments := frags\<rparr>),
                          total_used_mem :=
                            total_used_mem state + bytes_inserted - bytes_removed,
                          source_heap := (source_heap state)(source' \<mapsto>
                            src\<lparr>source_used_mem :=
                                  source_used_mem src + bytes_inserted - bytes_removed\<rparr>)\<rparr>
                       in if len fl1 \<noteq> 0
                             \<and> dpi_reassembly_ip_check_train_of_contiguous_fragments frags
                          then dpi_ipv6_fragmentation_build_complete_datagram K M s1 flow
                          else Some (None, s1)))))"

text \<open>Lines 664--756: what the entry point does with the flow it found or created.\<close>

definition manage_flow ::
  "build_constants \<Rightarrow> allocator \<Rightarrow> (address \<Rightarrow> u8) \<Rightarrow> dpi_ipv6_fragmentation_state \<Rightarrow>
   source_ptr \<Rightarrow> flow_ptr \<Rightarrow> address \<Rightarrow> u16 \<Rightarrow> address \<Rightarrow> u16 \<Rightarrow> u16 \<Rightarrow> u32 \<Rightarrow> u8 \<Rightarrow> u8 \<Rightarrow>
   (u8 list option \<times> dpi_ipv6_fragmentation_state) option" where
  "manage_flow K M mem state source' flow unfragmentable_start unfragmentable_size
     fragmentable_start fragmentable_size offset end' more_fragments next_header =
     (case flow_heap state flow of
        None \<Rightarrow> None
      | Some fl \<Rightarrow>
          if len fl \<noteq> 0 \<and> offset > len fl then Some (None, state)
          else
            (case store_unfragmentable K M mem state source' flow unfragmentable_start
                    unfragmentable_size next_header of
               None \<Rightarrow> None
             | Some (Return_NULL s1) \<Rightarrow> Some (None, s1)
             | Some (Go_on s1) \<Rightarrow>
                 insert_and_check K M mem s1 source' flow fragmentable_start fragmentable_size
                   offset end' more_fragments))"

text \<open>
  Line 44 is \<^verbatim>\<open>#define DPI_DEBUG_FRAGMENTATION_v6 0\<close>, and the size test of lines
  569--574 stands under \<^verbatim>\<open>#ifndef DPI_DEBUG_FRAGMENTATION_v6\<close>: the macro is defined, so
  the test is not compiled.
\<close>

definition DPI_DEBUG_FRAGMENTATION_v6_defined :: bool where
  "DPI_DEBUG_FRAGMENTATION_v6_defined = True"

definition DPI_IP_FRAGMENTATION_MAX_DATAGRAM_SIZE :: u32 where
  "DPI_IP_FRAGMENTATION_MAX_DATAGRAM_SIZE = 65535"

definition DPI_IPv6_FRAGMENTATION_MINIMUM_MTU :: int where
  "DPI_IPv6_FRAGMENTATION_MINIMUM_MTU = 1280"

text \<open>
  \<^verbatim>\<open>dpi_reordering_manage_ipv6_fragment\<close>. The two buffers are given by their addresses
  in the caller's memory \<open>mem\<close> and their sizes; the thread identifier, used by the lock
  alone, is left out. The result is the returned buffer (\<open>None\<close> is \<^verbatim>\<open>NULL\<close>) and
  the state.
\<close>

definition dpi_reordering_manage_ipv6_fragment ::
  "build_constants \<Rightarrow> allocator \<Rightarrow> (address \<Rightarrow> u8) \<Rightarrow> dpi_ipv6_fragmentation_state \<Rightarrow>
   address \<Rightarrow> u16 \<Rightarrow> address \<Rightarrow> u16 \<Rightarrow> u16 \<Rightarrow> u8 \<Rightarrow> u32 \<Rightarrow> u8 \<Rightarrow> u32 \<Rightarrow>
   (u8 list option \<times> dpi_ipv6_fragmentation_state) option" where
  "dpi_reordering_manage_ipv6_fragment K M mem state unfragmentable_start unfragmentable_size
     fragmentable_start fragmentable_size offset more_fragments identification next_header
     current_time =
     (if \<not> DPI_DEBUG_FRAGMENTATION_v6_defined
         \<and> int fragmentable_start + uint fragmentable_size - int unfragmentable_start
             < DPI_IPv6_FRAGMENTATION_MINIMUM_MTU
      then Some (None, state)
      else
        (let end' = (ucast offset + ucast fragmentable_size :: u32) in
         if end' > DPI_IP_FRAGMENTATION_MAX_DATAGRAM_SIZE then Some (None, state)
         else
           (case dpi_ipv6_fragmentation_find_or_create_source K M state
                   (ip6_src mem unfragmentable_start) of
              None \<Rightarrow> None
            | Some (None, s1) \<Rightarrow> Some (None, s1)
            | Some (Some source', s1) \<Rightarrow>
                (case per_source_eviction K s1 source' of
                   None \<Rightarrow> None
                 | Some (Return_NULL s2) \<Rightarrow> Some (None, s2)
                 | Some (Go_on s2) \<Rightarrow>
                     (case timer_sweep K s2 source' current_time of
                        None \<Rightarrow> None
                      | Some (Return_NULL s3) \<Rightarrow> Some (None, s3)
                      | Some (Go_on s3) \<Rightarrow>
                          (case dpi_ipv6_fragmentation_find_or_create_flow K M s3 source'
                                  identification (ip6_dst mem unfragmentable_start)
                                  current_time of
                             None \<Rightarrow> None
                           | Some (None, s4) \<Rightarrow> Some (None, s4)
                           | Some (Some flow, s4) \<Rightarrow>
                               manage_flow K M mem s4 source' flow unfragmentable_start
                                 unfragmentable_size fragmentable_start fragmentable_size
                                 offset end' more_fragments next_header))))))"

subsection \<open>Invariants of the engine\<close>

text \<open>The bytes charged for a flow: its structure, its fragments and its stored
  unfragmentable part; the memory counter of a source; the sources of the table.\<close>

definition unfragmentable_cost :: "dpi_ipv6_fragmentation_flow \<Rightarrow> u32" where
  "unfragmentable_cost fl =
     (case unfragmentable fl of None \<Rightarrow> 0 | Some u \<Rightarrow> ucast (unfragmentable_length fl))"

definition flow_cost :: "build_constants \<Rightarrow> dpi_ipv6_fragmentation_flow \<Rightarrow> u32" where
  "flow_cost K fl = sizeof_flow K + fragment_bytes (fragments fl) + unfragmentable_cost fl"

definition flow_mem :: "build_constants \<Rightarrow> dpi_ipv6_fragmentation_state \<Rightarrow> flow_ptr \<Rightarrow> u32" where
  "flow_mem K s f = (case flow_heap s f of None \<Rightarrow> 0 | Some fl \<Rightarrow> flow_cost K fl)"

definition source_mem :: "dpi_ipv6_fragmentation_state \<Rightarrow> source_ptr \<Rightarrow> u32" where
  "source_mem s p = (case source_heap s p of None \<Rightarrow> 0 | Some src \<Rightarrow> source_used_mem src)"

definition sources_in_table :: "dpi_ipv6_fragmentation_state \<Rightarrow> source_ptr list" where
  "sources_in_table s = concat (table s)"

text \<open>The table holds each allocated source once, in the chain of its row.\<close>

definition table_wf :: "dpi_ipv6_fragmentation_state \<Rightarrow> bool" where
  "table_wf s \<longleftrightarrow>
     distinct (sources_in_table s)
     \<and> set (sources_in_table s) = dom (source_heap s)
     \<and> (\<forall>p src. source_heap s p = Some src \<longrightarrow>
           unat (row src) < length (table s) \<and> p \<in> set (table s ! unat (row src)))"

text \<open>Every allocated flow is on the chain of the source it points to, and on no
  other chain.\<close>

definition flows_wf :: "dpi_ipv6_fragmentation_state \<Rightarrow> bool" where
  "flows_wf s \<longleftrightarrow>
     (\<forall>p src. source_heap s p = Some src \<longrightarrow>
        distinct (flows src)
        \<and> (\<forall>f \<in> set (flows src). \<exists>fl. flow_heap s f = Some fl \<and> source fl = p))
     \<and> (\<forall>f fl. flow_heap s f = Some fl \<longrightarrow>
          (\<exists>src. source_heap s (source fl) = Some src \<and> f \<in> set (flows src)))"

text \<open>The timer list holds each allocated flow once.\<close>

definition timers_wf :: "dpi_ipv6_fragmentation_state \<Rightarrow> bool" where
  "timers_wf s \<longleftrightarrow> distinct (timers s) \<and> set (timers s) = dom (flow_heap s)"

text \<open>The counter of a source is the size of its structure plus the bytes charged for
  its flows, and the total is the sum of the counters of the sources of the table.\<close>

definition accounts_wf :: "build_constants \<Rightarrow> dpi_ipv6_fragmentation_state \<Rightarrow> bool" where
  "accounts_wf K s \<longleftrightarrow>
     (\<forall>p src. source_heap s p = Some src \<longrightarrow>
        source_used_mem src = sizeof_source K + sum_list (map (flow_mem K s) (flows src)))
     \<and> total_used_mem s = sum_list (map (source_mem s) (sources_in_table s))"

definition engine_wf :: "build_constants \<Rightarrow> dpi_ipv6_fragmentation_state \<Rightarrow> bool" where
  "engine_wf K s \<longleftrightarrow> table_wf s \<and> flows_wf s \<and> timers_wf s \<and> accounts_wf K s"

text \<open>The state a loop or a step leaves.\<close>

fun state_of :: "'a control \<Rightarrow> 'a" where
  "state_of (Return_NULL s) = s"
| "state_of (Go_on s) = s"

text \<open>Every allocated flow has its unfragmentable part stored.\<close>

definition prefix_stored :: "dpi_ipv6_fragmentation_state \<Rightarrow> bool" where
  "prefix_stored s \<longleftrightarrow> (\<forall>f fl. flow_heap s f = Some fl \<longrightarrow> unfragmentable fl \<noteq> None)"

text \<open>
  The order of creation. A flow is added to the tail of the timer list when it is
  created, and timers are only ever removed: \<open>precedes ts g f\<close> says that \<open>g\<close> stands
  before \<open>f\<close> in the timer list \<open>ts\<close>, so \<open>g\<close> was created before \<open>f\<close>. The chain
  of a source has its flows in the opposite order, the youngest first.
\<close>

fun precedes :: "'a list \<Rightarrow> 'a \<Rightarrow> 'a \<Rightarrow> bool" where
  "precedes [] g f = False"
| "precedes (x # xs) g f = (if x = g then f \<in> set xs else precedes xs g f)"

definition youngest_first :: "dpi_ipv6_fragmentation_state \<Rightarrow> bool" where
  "youngest_first s \<longleftrightarrow>
     (\<forall>p src. source_heap s p = Some src \<longrightarrow>
        sorted_wrt (\<lambda>f g. precedes (timers s) g f) (flows src))"

text \<open>The chain of flows of a source; empty when the source is not allocated.\<close>

definition flows_of :: "dpi_ipv6_fragmentation_state \<Rightarrow> source_ptr \<Rightarrow> flow_ptr list" where
  "flows_of s p = (case source_heap s p of None \<Rightarrow> [] | Some src \<Rightarrow> flows src)"

text \<open>
  The states of an engine in use: what the creation returns, and what a call of a
  setter or of the entry point leaves.
\<close>

inductive reachable :: "build_constants \<Rightarrow> dpi_ipv6_fragmentation_state \<Rightarrow> bool"
  for K :: build_constants where
  created:
    "dpi_reordering_enable_ipv6_fragmentation K calloc_state malloc_table n = Some s
     \<Longrightarrow> reachable K s"
| per_host_limit_set:
    "reachable K s
     \<Longrightarrow> reachable K (dpi_reordering_ipv6_fragmentation_set_per_host_memory_limit s l)"
| total_limit_set:
    "reachable K s
     \<Longrightarrow> reachable K (dpi_reordering_ipv6_fragmentation_set_total_memory_limit s l)"
| timeout_set:
    "reachable K s
     \<Longrightarrow> reachable K (dpi_reordering_ipv6_fragmentation_set_reassembly_timeout s t)"
| fragment_managed:
    "reachable K s
     \<Longrightarrow> dpi_reordering_manage_ipv6_fragment K M mem s unfragmentable_start
           unfragmentable_size fragmentable_start fragmentable_size offset more_fragments
           identification next_header current_time = Some (r, s')
     \<Longrightarrow> reachable K s'"

subsection \<open>Concrete engines and packets\<close>

text \<open>The constants of an LP64 build, with defaults chosen for the examples.\<close>

definition K0 :: build_constants where
  "K0 = \<lparr>sizeof_source = 48, sizeof_flow = 96, DEFAULT_PER_HOST_MEMORY_LIMIT = 8192,
         DEFAULT_TOTAL_MEMORY_LIMIT = 1000000, DEFAULT_REASSEMBLY_TIMEOUT = 30\<rparr>"

text \<open>An allocator that succeeds everywhere and hands out the two given addresses.\<close>

definition malloc_ok :: "source_ptr \<Rightarrow> flow_ptr \<Rightarrow> allocator" where
  "malloc_ok p f = \<lparr>malloc_source = Some p, malloc_flow = Some f,
                    malloc_unfragmentable = True, malloc_datagram = True\<rparr>"

text \<open>The fixed header of a fragment from \<open>2001:db8::a\<close> to \<open>2001:db8::b\<close>
  (next header 44, hop limit 64).\<close>

definition ipv6_header :: "u8 \<Rightarrow> u8 \<Rightarrow> u8 list" where
  "ipv6_header a b = [96, 0, 0, 0, 0, 0, 44, 64]
     @ [32, 1, 13, 184, 0, 0, 0, 0, 0, 0, 0, 0, 0, 0, 0, a]
     @ [32, 1, 13, 184, 0, 0, 0, 0, 0, 0, 0, 0, 0, 0, 0, b]"

text \<open>A memory that holds one packet at address 0: the fixed header at 0, the 8 bytes
  of the fragment header at 40 and the fragmentable part at 48.\<close>

definition packet :: "u8 \<Rightarrow> u8 \<Rightarrow> u8 list \<Rightarrow> address \<Rightarrow> u8" where
  "packet a b payload i =
     (let bytes = ipv6_header a b @ replicate 8 0 @ payload
      in if i < length bytes then bytes ! i else 0)"

text \<open>The engine that \<^verbatim>\<open>dpi_reordering_enable_ipv6_fragmentation(4)\<close> returns.\<close>

definition engine0 :: dpi_ipv6_fragmentation_state where
  "engine0 = \<lparr>table = [[], [], [], []], total_used_mem = 0, table_size = 4, timers = [],
     per_source_memory_limit = 8192, total_memory_limit = 1000000, timeout = 30,
     source_heap = Map.empty, flow_heap = Map.empty\<rparr>"

subsection \<open>Observations and scenarios\<close>

text \<open>What a run of calls leaves: the returned buffer with the table, the timer list
  and the total memory; a source; a flow.\<close>

definition outcome ::
  "(u8 list option \<times> dpi_ipv6_fragmentation_state) option \<Rightarrow>
   (u8 list option \<times> source_ptr list list \<times> flow_ptr list \<times> u32) option" where
  "outcome x = map_option (\<lambda>(r, s). (r, table s, timers s, total_used_mem s)) x"

definition source_of ::
  "(u8 list option \<times> dpi_ipv6_fragmentation_state) option \<Rightarrow> source_ptr \<Rightarrow>
   dpi_ipv6_fragmentation_source option" where
  "source_of x p = Option.bind x (\<lambda>(r, s). source_heap s p)"

definition flow_of ::
  "(u8 list option \<times> dpi_ipv6_fragmentation_state) option \<Rightarrow> flow_ptr \<Rightarrow>
   dpi_ipv6_fragmentation_flow option" where
  "flow_of x f = Option.bind x (\<lambda>(r, s). flow_heap s f)"

definition fragment_ends :: "dpi_ipv6_fragmentation_flow \<Rightarrow> u32 list" where
  "fragment_ends fl = map frag_end (fragments fl)"

definition payload8 :: "u8 list" where
  "payload8 = [0, 1, 2, 3, 4, 5, 6, 7]"

text \<open>
  Timer expiry with two sources. At time 0 source \<open>::1\<close> sends a first fragment
  (id 7, MF 1); at time 10 source \<open>::2\<close> does the same; at time 35 source \<open>::2\<close>
  sends the next fragment of its datagram (offset 8, MF 1). The timeout is 30.
\<close>

definition sweep_scenario :: "(u8 list option \<times> dpi_ipv6_fragmentation_state) option" where
  "sweep_scenario =
     Option.bind
       (dpi_reordering_manage_ipv6_fragment K0 (malloc_ok 1 1) (packet 1 9 payload8) engine0
          0 40 48 8 0 1 7 59 0)
       (\<lambda>(r1, s1). Option.bind
          (dpi_reordering_manage_ipv6_fragment K0 (malloc_ok 2 2) (packet 2 9 payload8) s1
             0 40 48 8 0 1 7 59 10)
          (\<lambda>(r2, s2).
             dpi_reordering_manage_ipv6_fragment K0 (malloc_ok 3 3) (packet 2 9 payload8) s2
               0 40 48 8 8 1 7 59 35))"

text \<open>
  Timer expiry met by a whole datagram. At time 0 source \<open>::1\<close> sends a first
  fragment (id 7, MF 1); at time 31 the same source sends another datagram (id 8) whole,
  in one fragment (offset 0, MF 0).
\<close>

definition expiry_scenario :: "(u8 list option \<times> dpi_ipv6_fragmentation_state) option" where
  "expiry_scenario =
     Option.bind
       (dpi_reordering_manage_ipv6_fragment K0 (malloc_ok 1 1) (packet 1 9 payload8) engine0
          0 40 48 8 0 1 7 59 0)
       (\<lambda>(r1, s1).
          dpi_reordering_manage_ipv6_fragment K0 (malloc_ok 2 2) (packet 1 9 payload8) s1
            0 40 48 8 0 0 8 59 31)"

text \<open>
  A whole datagram from a host that has another one in flight. At time 0 source
  \<open>::1\<close> sends a first fragment (id 7, MF 1), which leaves \<open>busy_host\<close>; at time 1
  the same source sends another datagram (id 8) whole, in one fragment (offset 0, MF 0).
  The steps of that second call, up to the flow it creates: the source it finds, what
  the eviction loop and the sweep leave, and the flow.
\<close>

definition busy_host :: "(u8 list option \<times> dpi_ipv6_fragmentation_state) option" where
  "busy_host =
     dpi_reordering_manage_ipv6_fragment K0 (malloc_ok 1 1) (packet 1 9 payload8) engine0
       0 40 48 8 0 1 7 59 0"

definition busy_entry ::
  "(source_ptr option \<times> dpi_ipv6_fragmentation_state) option" where
  "busy_entry =
     Option.bind busy_host
       (\<lambda>(r1, s1).
          dpi_ipv6_fragmentation_find_or_create_source K0 (malloc_ok 2 2) s1
            (ip6_src (packet 1 9 payload8) 0))"

definition busy_loop :: "dpi_ipv6_fragmentation_state control option" where
  "busy_loop =
     Option.bind busy_entry
       (\<lambda>(sp, s). case sp of None \<Rightarrow> None | Some p \<Rightarrow> per_source_eviction K0 s p)"

definition busy_sweep :: "dpi_ipv6_fragmentation_state control option" where
  "busy_sweep =
     Option.bind busy_loop
       (\<lambda>c. case c of Return_NULL s \<Rightarrow> None | Go_on s \<Rightarrow> timer_sweep K0 s 1 1)"

definition busy_flow :: "(flow_ptr option \<times> dpi_ipv6_fragmentation_state) option" where
  "busy_flow =
     Option.bind busy_sweep
       (\<lambda>c. case c of
          Return_NULL s \<Rightarrow> None
        | Go_on s \<Rightarrow>
            dpi_ipv6_fragmentation_find_or_create_flow K0 (malloc_ok 2 2) s 1 8
              (ip6_dst (packet 1 9 payload8) 0) 1)"

text \<open>Whether a loop lets the entry point go on.\<close>

definition goes_on :: "'a control \<Rightarrow> bool" where
  "goes_on c = (case c of Return_NULL s \<Rightarrow> False | Go_on s \<Rightarrow> True)"

text \<open>
  Per-source eviction. The per-source limit is 300 bytes. Source \<open>::1\<close> opens the
  flow of id 1 at time 0 and the flow of id 2 at time 1 (\<open>two_flows\<close>, 336 bytes), and
  sends a fragment of id 3 at time 2.
\<close>

definition two_flows :: "(u8 list option \<times> dpi_ipv6_fragmentation_state) option" where
  "two_flows =
     Option.bind
       (dpi_reordering_manage_ipv6_fragment K0 (malloc_ok 1 1) (packet 1 9 payload8)
          (dpi_reordering_ipv6_fragmentation_set_per_host_memory_limit engine0 300)
          0 40 48 8 0 1 1 59 0)
       (\<lambda>(r1, s1).
          dpi_reordering_manage_ipv6_fragment K0 (malloc_ok 2 2) (packet 1 9 payload8) s1
            0 40 48 8 0 1 2 59 1)"

definition eviction_scenario :: "(u8 list option \<times> dpi_ipv6_fragmentation_state) option" where
  "eviction_scenario =
     Option.bind two_flows
       (\<lambda>(r2, s2).
          dpi_reordering_manage_ipv6_fragment K0 (malloc_ok 3 3) (packet 1 9 payload8) s2
            0 40 48 8 0 1 3 59 2)"

text \<open>
  The third call of \<open>eviction_scenario\<close> up to its eviction loop: the source it
  finds, and what the loop leaves.
\<close>

definition eviction_entry ::
  "(source_ptr option \<times> dpi_ipv6_fragmentation_state) option" where
  "eviction_entry =
     Option.bind two_flows
       (\<lambda>(r2, s2).
          dpi_ipv6_fragmentation_find_or_create_source K0 (malloc_ok 3 3) s2
            (ip6_src (packet 1 9 payload8) 0))"

definition eviction_loop :: "dpi_ipv6_fragmentation_state control option" where
  "eviction_loop =
     Option.bind eviction_entry
       (\<lambda>(sp, s3). case sp of None \<Rightarrow> None | Some p \<Rightarrow> per_source_eviction K0 s3 p)"

text \<open>
  A datagram whose last fragment is not its end. The fragments of one datagram arrive
  as bytes 16..23 (MF 1), then bytes 8..15 (MF 0, which declares the length 16)
  (\<open>late_scenario\<close> is the same with bytes 0..7 as the MF 0 fragment), then bytes 0..7
  (MF 1).
\<close>

definition mismatch_scenario :: "(u8 list option \<times> dpi_ipv6_fragmentation_state) option" where
  "mismatch_scenario =
     Option.bind
       (dpi_reordering_manage_ipv6_fragment K0 (malloc_ok 1 1) (packet 1 9 payload8) engine0
          0 40 48 8 16 1 7 59 0)
       (\<lambda>(r1, s1). Option.bind
          (dpi_reordering_manage_ipv6_fragment K0 (malloc_ok 2 2) (packet 1 9 payload8) s1
             0 40 48 8 8 0 7 59 1)
          (\<lambda>(r2, s2).
             dpi_reordering_manage_ipv6_fragment K0 (malloc_ok 3 3) (packet 1 9 payload8) s2
               0 40 48 8 0 1 7 59 2))"

definition late_scenario :: "(u8 list option \<times> dpi_ipv6_fragmentation_state) option" where
  "late_scenario =
     Option.bind
       (dpi_reordering_manage_ipv6_fragment K0 (malloc_ok 1 1) (packet 1 9 payload8) engine0
          0 40 48 8 16 1 7 59 0)
       (\<lambda>(r1, s1).
          dpi_reordering_manage_ipv6_fragment K0 (malloc_ok 2 2) (packet 1 9 payload8) s1
            0 40 48 8 0 0 7 59 1)"

text \<open>The address \<open>2001:db8::a\<close>.\<close>

definition addr6 :: "u8 \<Rightarrow> in6_addr" where
  "addr6 a = [32, 1, 13, 184, 0, 0, 0, 0, 0, 0, 0, 0, 0, 0, 0, a]"

text \<open>
  The engine as \<open>late_scenario\<close> leaves it: one source, whose flow has the declared
  length 8 and holds the bytes 0..7 and 16..23.
\<close>

definition late_flow :: dpi_ipv6_fragmentation_flow where
  "late_flow = \<lparr>unfragmentable = Some ((ipv6_header 1 9)[6 := 59]),
                 unfragmentable_length = 40, len = 8, ident = 7,
                 dstaddr = addr6 9,
                 fragments = [\<lparr>frag_offset = 0, frag_end = 8, frag_ptr = payload8\<rparr>,
                              \<lparr>frag_offset = 16, frag_end = 24, frag_ptr = payload8\<rparr>],
                 timer_expiration_time = 30, source = 1\<rparr>"

definition late_state :: dpi_ipv6_fragmentation_state where
  "late_state = engine0
     \<lparr>table := [[], [], [], [1]], total_used_mem := 200, timers := [1],
      source_heap := [1 \<mapsto> \<lparr>flows = [1], source_used_mem = 200,
                            ipv6_srcaddr = addr6 1, row = 3\<rparr>],
      flow_heap := [1 \<mapsto> late_flow]\<rparr>"

section \<open>Properties\<close>

subsection \<open>Arithmetic of the sizes\<close>

lemma unat_ucast_u16_u32: "unat (ucast (a :: u16) :: u32) = unat a"
proof -
  have "unat a < 2 ^ 32"
    using unsigned_less [of a, where 'a = nat] by simp
  then show ?thesis
    by (simp add: unsigned_ucast_eq take_bit_nat_eq_self)
qed

lemma unat_end: "unat (ucast (a :: u16) + ucast (b :: u16) :: u32) = unat a + unat b"
  using unsigned_less [of a, where 'a = nat] unsigned_less [of b, where 'a = nat]
  by (simp add: unat_word_ariths unat_ucast_u16_u32)

lemma enable_engine0:
  "dpi_reordering_enable_ipv6_fragmentation K0 True True 4 = Some engine0"
proof -
  have "replicate (unat (4 :: u16)) ([] :: source_ptr list) = [[], [], [], []]"
    by code_simp
  then show ?thesis
    by (simp add: dpi_reordering_enable_ipv6_fragmentation_def K0_def engine0_def)
qed

subsection \<open>The screens of the entry point\<close>

text \<open>
  C8. A call with \<open>offset + fragmentable_size > 65535\<close> returns \<^verbatim>\<open>NULL\<close> and
  leaves the whole state (table, sources, flows, timers, memory counters) as it was.
\<close>

theorem oversize_fragment_rejected:
  assumes "65535 < unat offset + unat fragmentable_size"
  shows "dpi_reordering_manage_ipv6_fragment K M mem state unfragmentable_start
           unfragmentable_size fragmentable_start fragmentable_size offset more_fragments
           identification next_header current_time = Some (None, state)"
proof -
  from assms have "(ucast offset + ucast fragmentable_size :: u32) > 65535"
    by (simp add: word_less_nat_alt unat_end)
  then show ?thesis
    by (simp add: dpi_reordering_manage_ipv6_fragment_def
          DPI_DEBUG_FRAGMENTATION_v6_defined_def DPI_IP_FRAGMENTATION_MAX_DATAGRAM_SIZE_def)
qed

theorem oversize_fragment_rejected_witness:
  "dpi_reordering_manage_ipv6_fragment K0 (malloc_ok 1 1) (packet 1 2 [0, 1, 2, 3, 4, 5, 6, 7])
     engine0 0 40 48 8 65528 1 1 59 0 = Some (None, engine0)"
  using oversize_fragment_rejected [of 65528 8] by simp

text \<open>
  C6 (the code differs). The claim: in a production build a call whose packet is
  shorter than 1280 bytes returns \<^verbatim>\<open>NULL\<close> and changes nothing. The code as it is
  compiled: the single fragment of a 52-byte packet (offset 0, MF 0, 4 bytes of payload)
  on the fresh engine is accepted and comes back as the reassembled datagram.
\<close>

theorem small_packet_is_accepted:
  "map_option fst
     (dpi_reordering_manage_ipv6_fragment K0 (malloc_ok 1 1) (packet 1 2 [0, 1, 2, 3])
        engine0 0 40 48 4 0 0 1 59 0)
   = Some (Some ((ipv6_header 1 2)[5 := 4, 6 := 59] @ [0, 1, 2, 3]))"
  by code_simp

subsection \<open>The hash function\<close>

text \<open>
  C9 (amended). The creation does not look at the bucket count. For every engine whose
  bucket count is not 0, the hash function is defined and returns an index strictly
  smaller than the bucket count.
\<close>

theorem hash_below_table_size:
  assumes "table_size state \<noteq> 0"
  shows "\<exists>h. dpi_ipv6_fragmentation_hash_function state addr = Some h \<and> h < table_size state"
  using assms
  by (simp add: dpi_ipv6_fragmentation_hash_function_def Let_def word_mod_less_divisor
        word_neq_0_conv)

theorem hash_below_table_size_witness:
  "\<exists>h. dpi_ipv6_fragmentation_hash_function engine0 (ip6_src (packet 1 2 []) 0) = Some h
       \<and> h < table_size engine0"
  using hash_below_table_size [of engine0] by (simp add: engine0_def)

text \<open>
  C9 as stated fails: with a bucket count of 0 and both allocations answered, the
  creation returns an engine, and on that engine the hash function divides by zero.
\<close>

theorem create_accepts_zero_buckets:
  "dpi_reordering_enable_ipv6_fragmentation K0 True True 0
     = Some (engine0\<lparr>table := [], table_size := 0\<rparr>)
   \<and> dpi_ipv6_fragmentation_hash_function (engine0\<lparr>table := [], table_size := 0\<rparr>)
        (ip6_src (packet 1 2 []) 0) = None"
  by (simp add: dpi_reordering_enable_ipv6_fragmentation_def K0_def engine0_def
        dpi_ipv6_fragmentation_hash_function_def)

subsection \<open>Concrete packets\<close>

lemma ip6_src_packet: "ip6_src (packet a b payload) 0 = addr6 a"
  by (simp add: ip6_src_def bytes_at_def packet_def ipv6_header_def Let_def addr6_def
        upt_conv_Cons)

lemma ip6_dst_packet: "ip6_dst (packet a b payload) 0 = addr6 b"
  by (simp add: ip6_dst_def bytes_at_def packet_def ipv6_header_def Let_def addr6_def
        upt_conv_Cons)

lemma header_of_packet: "bytes_at (packet a b payload) 0 40 = ipv6_header a b"
  by (simp add: bytes_at_def packet_def ipv6_header_def Let_def upt_conv_Cons)

lemma bucket_of_addr6_1: "foldl hash_step 0 (addr6 1) mod 4 = 3"
  by (simp add: hash_step_def addr6_def)

subsection \<open>Arithmetic of the fragment ends\<close>

lemma ucast_u16_u32_u16: "(ucast (ucast (a :: u16) :: u32) :: u16) = a"
  by (simp add: ucast_up_ucast_id is_up)

lemma end_fits: "unat (a :: u16) + unat (b :: u16) \<le> 65535 \<Longrightarrow> \<not> (65535 :: u32) < ucast a + ucast b"
  by (simp add: word_less_nat_alt unat_end)

lemma ucast_u16_u32_pos: "0 < unat (b :: u16) \<Longrightarrow> (0 :: u32) < ucast b"
  by (simp add: word_less_nat_alt unat_ucast_u16_u32)

lemma uint_ucast_u16_u32: "uint (ucast (a :: u16) :: u32) = uint a"
  by (simp add: uint_up_ucast is_up)

lemma uint_not_minus_1: "uint (a :: u16) \<noteq> - 1"
  using uint_ge_0 [of a] by linarith

subsection \<open>A fragment that starts after the declared end\<close>

text \<open>
  C4 (amended). Stored fragments may end beyond the declared length. When a call
  reaches the flow lookup (the source was found or created, and neither the per-source
  eviction nor the sweep made the function return), finds a flow whose declared length
  is not 0, and the offset of the fragment is greater than that length, the call returns
  \<^verbatim>\<open>NULL\<close> and the state is the one the sweep left: the flow is as it was and the
  fragment is not inserted.
\<close>

theorem late_fragment_rejected:
  assumes src: "dpi_ipv6_fragmentation_find_or_create_source K M s (ip6_src mem us)
                  = Some (Some p, s1)"
    and evict: "per_source_eviction K s1 p = Some (Go_on s2)"
    and sweep: "timer_sweep K s2 p now = Some (Go_on s3)"
    and found: "dpi_ipv6_fragmentation_find_or_create_flow K M s3 p idn (ip6_dst mem us) now
                  = Some (Some f, s4)"
    and flow: "flow_heap s4 f = Some fl" "len fl \<noteq> 0" "len fl < offset"
    and fits: "unat offset + unat fsize \<le> 65535"
  shows "dpi_reordering_manage_ipv6_fragment K M mem s us usize fs fsize offset mf idn nh now
           = Some (None, s3) \<and> flow_heap s3 f = Some fl"
proof -
  have "s4 = s3"
    using found flow
    by (auto simp: dpi_ipv6_fragmentation_find_or_create_flow_def
          split: option.splits if_splits)
  moreover have "\<not> (65535 :: u32) < ucast offset + ucast fsize"
    using fits by (rule end_fits)
  ultimately show ?thesis
    using src evict sweep found flow
    by (simp add: dpi_reordering_manage_ipv6_fragment_def DPI_DEBUG_FRAGMENTATION_v6_defined_def
         DPI_IP_FRAGMENTATION_MAX_DATAGRAM_SIZE_def manage_flow_def)
qed

lemma late_state_source:
  "dpi_ipv6_fragmentation_find_or_create_source K0 (malloc_ok 2 2) late_state (addr6 1)
   = Some (Some 1, late_state)"
  by (simp add: dpi_ipv6_fragmentation_find_or_create_source_def
        dpi_ipv6_fragmentation_hash_function_def late_state_def engine0_def bucket_of_addr6_1
        dpi_v6_addresses_equal_def Let_def)

lemma late_state_eviction: "per_source_eviction K0 late_state 1 = Some (Go_on late_state)"
  by (subst per_source_eviction.simps) (simp add: late_state_def engine0_def)

lemma late_state_sweep: "timer_sweep K0 late_state 1 2 = Some (Go_on late_state)"
  by (subst timer_sweep.simps) (simp add: late_state_def engine0_def late_flow_def)

lemma late_state_flow:
  "dpi_ipv6_fragmentation_find_or_create_flow K0 (malloc_ok 2 2) late_state 1 7 (addr6 9) 2
   = Some (Some 1, late_state)"
  by (simp add: dpi_ipv6_fragmentation_find_or_create_flow_def late_state_def engine0_def
        dpi_v6_addresses_equal_def late_flow_def)

theorem late_fragment_rejected_witness:
  "dpi_reordering_manage_ipv6_fragment K0 (malloc_ok 2 2) (packet 1 9 payload8) late_state
     0 40 48 8 32 1 7 59 2 = Some (None, late_state)
   \<and> flow_heap late_state 1 = Some late_flow"
proof -
  have h1: "dpi_ipv6_fragmentation_find_or_create_source K0 (malloc_ok 2 2) late_state
              (ip6_src (packet 1 9 payload8) 0) = Some (Some 1, late_state)"
    by (simp only: ip6_src_packet late_state_source)
  have h4: "dpi_ipv6_fragmentation_find_or_create_flow K0 (malloc_ok 2 2) late_state 1 7
              (ip6_dst (packet 1 9 payload8) 0) 2 = Some (Some 1, late_state)"
    by (simp only: ip6_dst_packet late_state_flow)
  have h5: "flow_heap late_state 1 = Some late_flow"
    by (simp add: late_state_def)
  have h6: "len late_flow \<noteq> 0" "len late_flow < 32"
    by (simp_all add: late_flow_def)
  have h8: "unat (32 :: u16) + unat (8 :: u16) \<le> 65535"
    by simp
  show ?thesis
    by (rule late_fragment_rejected [OF h1 late_state_eviction late_state_sweep h4 h5 h6 h8])
qed

subsection \<open>Accounting of the fragment list, and lists\<close>

lemma release_fragments_eq: "release_fragments m gs = m - fragment_bytes gs"
  by (induction gs arbitrary: m) (simp_all add: diff_diff_eq)

lemma release_unfragmentable_eq: "release_unfragmentable m fl = m - unfragmentable_cost fl"
  by (simp add: release_unfragmentable_def unfragmentable_cost_def split: option.splits)

lemma fragment_bytes_append:
  "fragment_bytes (xs @ ys) = fragment_bytes xs + fragment_bytes ys"
  by (induction xs) simp_all

lemma displace_followers_bytes:
  "displace_followers e gs = (r, n) \<Longrightarrow> fragment_bytes r + n = fragment_bytes gs"
  by (induction gs arbitrary: r n) (auto split: if_splits prod.splits)

lemma insert_fragment_bytes:
  assumes "dpi_reassembly_insert_fragment frags data off e = Some (frags', removed, inserted)"
  shows "fragment_bytes frags' + removed = fragment_bytes frags + inserted"
proof -
  define L where "L = takeWhile (\<lambda>g. frag_offset g < off) frags"
  define T where "T = dropWhile (\<lambda>g. frag_offset g < off) frags"
  define start where "start = (if L = [] then off
                      else if off < frag_end (last L) then frag_end (last L)
                      else off)"
  have frags: "frags = L @ T"
    by (simp add: L_def T_def)
  show ?thesis
  proof (cases "e \<le> start")
    case True
    with assms show ?thesis
      by (simp add: dpi_reassembly_insert_fragment_def Let_def L_def [symmetric] start_def [symmetric]
            split: if_splits)
  next
    case False
    obtain fo n where d: "displace_followers e T = (fo, n)"
      by (cases "displace_followers e T")
    from False assms d have "frags' = L @ \<lparr>frag_offset = start, frag_end = e,
                               frag_ptr = drop (unat (start - off)) data\<rparr> # fo"
      and "removed = n" and "inserted = e - start"
      by (simp_all add: dpi_reassembly_insert_fragment_def Let_def L_def [symmetric]
            T_def [symmetric] start_def [symmetric] split: if_splits)
    with displace_followers_bytes [OF d] show ?thesis
      by (simp add: frags fragment_bytes_append algebra_simps)
  qed
qed

lemma mset_concat_update_cons:
  "i < length xs \<Longrightarrow> mset (concat (xs[i := p # xs ! i])) = add_mset p (mset (concat xs))"
  by (induction xs arbitrary: i) (auto split: nat.splits)

lemma mset_concat_update_remove1:
  "i < length xs \<Longrightarrow> p \<in> set (xs ! i) \<Longrightarrow>
   mset (concat (xs[i := remove1 p (xs ! i)])) = mset (concat xs) - {#p#}"
proof (induction xs arbitrary: i)
  case Nil
  then show ?case by simp
next
  case (Cons a xs)
  show ?case
  proof (cases i)
    case 0
    with Cons.prems show ?thesis by simp
  next
    case (Suc k)
    with Cons.prems have k: "k < length xs" "p \<in> set (xs ! k)"
      by simp_all
    then have "p \<in># mset (concat xs)"
      by (auto intro: nth_mem)
    with Cons.IH [OF k] Suc show ?thesis
      by simp
  qed
qed

lemma sum_list_map_mset_cong:
  fixes f :: "'a \<Rightarrow> 'b::comm_monoid_add"
  shows "mset xs = mset ys \<Longrightarrow> sum_list (map f xs) = sum_list (map f ys)"
proof -
  assume "mset xs = mset ys"
  then have "sum_mset (mset (map f xs)) = sum_mset (mset (map f ys))"
    by simp
  then show ?thesis
    by (simp only: sum_mset_sum_list)
qed

lemma sum_list_map_upd_notin:
  "x \<notin> set xs \<Longrightarrow> sum_list (map (g(x := v)) xs) = sum_list (map g xs)"
  by (induction xs) auto

lemma sum_list_map_upd_in:
  fixes g :: "'a \<Rightarrow> 'b::ab_group_add"
  shows "distinct xs \<Longrightarrow> x \<in> set xs \<Longrightarrow>
         sum_list (map (g(x := v)) xs) = sum_list (map g xs) - g x + v"
  by (induction xs) (auto simp: sum_list_map_upd_notin)

lemma sum_list_map_remove1_group:
  fixes g :: "'a \<Rightarrow> 'b::ab_group_add"
  shows "x \<in> set xs \<Longrightarrow> sum_list (map g (remove1 x xs)) = sum_list (map g xs) - g x"
  by (induction xs) auto


lemma flows_wf_distinct:
  "flows_wf s \<Longrightarrow> source_heap s p = Some src \<Longrightarrow> distinct (flows src)"
  by (simp add: flows_wf_def)

lemma flows_wf_member:
  "flows_wf s \<Longrightarrow> source_heap s p = Some src \<Longrightarrow> f \<in> set (flows src) \<Longrightarrow>
   \<exists>fl. flow_heap s f = Some fl \<and> source fl = p"
  by (simp add: flows_wf_def)

lemma flows_wf_owner:
  "flows_wf s \<Longrightarrow> flow_heap s f = Some fl \<Longrightarrow>
   \<exists>src. source_heap s (source fl) = Some src \<and> f \<in> set (flows src)"
  by (simp add: flows_wf_def)

lemma flows_wf_unique_owner:
  assumes "flows_wf s" "flow_heap s f = Some fl" "source_heap s p = Some src"
    "f \<in> set (flows src)"
  shows "p = source fl"
  using flows_wf_member [OF assms(1,3,4)] assms(2) by auto

lemma table_wf_distinct: "table_wf s \<Longrightarrow> distinct (sources_in_table s)"
  by (simp add: table_wf_def)

lemma table_wf_dom: "table_wf s \<Longrightarrow> set (sources_in_table s) = dom (source_heap s)"
  by (simp add: table_wf_def)

lemma table_wf_row:
  "table_wf s \<Longrightarrow> source_heap s p = Some src \<Longrightarrow>
   unat (row src) < length (table s) \<and> p \<in> set (table s ! unat (row src))"
  by (simp add: table_wf_def)

lemma table_wf_member:
  "table_wf s \<Longrightarrow> source_heap s p = Some src \<Longrightarrow> p \<in> set (sources_in_table s)"
  by (auto simp: table_wf_def)

lemma accounts_wf_source:
  "accounts_wf K s \<Longrightarrow> source_heap s p = Some src \<Longrightarrow>
   source_used_mem src = sizeof_source K + sum_list (map (flow_mem K s) (flows src))"
  by (simp add: accounts_wf_def)

lemma accounts_wf_total:
  "accounts_wf K s \<Longrightarrow> total_used_mem s = sum_list (map (source_mem s) (sources_in_table s))"
  by (simp add: accounts_wf_def)

subsection \<open>Deleting a flow keeps the invariants\<close>

lemma delete_flow_SomeD:
  assumes "dpi_ipv6_fragmentation_delete_flow K s f = Some s1"
  obtains fl src where "flow_heap s f = Some fl" "source_heap s (source fl) = Some src"
    "f \<in> set (timers s)" "f \<in> set (flows src)"
    "s1 = s\<lparr>total_used_mem := total_used_mem s - flow_cost K fl,
            timers := remove1 f (timers s),
            source_heap := (source_heap s)(source fl \<mapsto>
              src\<lparr>source_used_mem := source_used_mem src - flow_cost K fl,
                  flows := remove1 f (flows src)\<rparr>),
            flow_heap := (flow_heap s)(f := None)\<rparr>"
  using assms
  by (auto simp: dpi_ipv6_fragmentation_delete_flow_def release_fragments_eq
        release_unfragmentable_eq flow_cost_def dpi_reassembly_delete_timer_def diff_diff_eq
        add.assoc split: option.splits if_splits)

lemma delete_flow_table_wf:
  assumes "table_wf s" "dpi_ipv6_fragmentation_delete_flow K s f = Some s1"
  shows "table_wf s1"
proof -
  from assms(2) obtain fl src where *: "source_heap s (source fl) = Some src"
    "s1 = s\<lparr>total_used_mem := total_used_mem s - flow_cost K fl,
            timers := remove1 f (timers s),
            source_heap := (source_heap s)(source fl \<mapsto>
              src\<lparr>source_used_mem := source_used_mem src - flow_cost K fl,
                  flows := remove1 f (flows src)\<rparr>),
            flow_heap := (flow_heap s)(f := None)\<rparr>"
    by (rule delete_flow_SomeD)
  from *(1) have "dom ((source_heap s)(source fl \<mapsto> src\<lparr>source_used_mem := source_used_mem src - flow_cost K fl,
                  flows := remove1 f (flows src)\<rparr>)) = dom (source_heap s)"
    by auto
  with assms(1) * show ?thesis
    by (auto simp: table_wf_def sources_in_table_def split: if_splits)
qed

lemma delete_flow_timers_wf:
  assumes "timers_wf s" "dpi_ipv6_fragmentation_delete_flow K s f = Some s1"
  shows "timers_wf s1"
proof -
  from assms(2) obtain fl src where
    "s1 = s\<lparr>total_used_mem := total_used_mem s - flow_cost K fl,
            timers := remove1 f (timers s),
            source_heap := (source_heap s)(source fl \<mapsto>
              src\<lparr>source_used_mem := source_used_mem src - flow_cost K fl,
                  flows := remove1 f (flows src)\<rparr>),
            flow_heap := (flow_heap s)(f := None)\<rparr>"
    by (rule delete_flow_SomeD)
  with assms(1) show ?thesis
    by (auto simp: timers_wf_def)
qed

lemma delete_flow_flows_wf:
  assumes "flows_wf s" "dpi_ipv6_fragmentation_delete_flow K s f = Some s1"
  shows "flows_wf s1"
proof -
  from assms(2) obtain fl src where *: "flow_heap s f = Some fl" "source_heap s (source fl) = Some src"
    "f \<in> set (flows src)"
    "s1 = s\<lparr>total_used_mem := total_used_mem s - flow_cost K fl,
            timers := remove1 f (timers s),
            source_heap := (source_heap s)(source fl \<mapsto>
              src\<lparr>source_used_mem := source_used_mem src - flow_cost K fl,
                  flows := remove1 f (flows src)\<rparr>),
            flow_heap := (flow_heap s)(f := None)\<rparr>"
    by (rule delete_flow_SomeD)
  have own: "\<And>p src'. source_heap s p = Some src' \<Longrightarrow> f \<in> set (flows src') \<Longrightarrow> p = source fl"
    using assms(1) *(1) by (fastforce simp: flows_wf_def)
  have d: "distinct (flows src)"
    using assms(1) *(2) by (simp add: flows_wf_def)
  show ?thesis
    unfolding flows_wf_def
  proof (intro conjI allI impI)
    fix p src' assume p: "source_heap s1 p = Some src'"
    show "distinct (flows src')"
      using p assms(1) * by (auto simp: flows_wf_def split: if_splits)
    show "\<forall>g\<in>set (flows src'). \<exists>gl. flow_heap s1 g = Some gl \<and> source gl = p"
    proof
      fix g assume g: "g \<in> set (flows src')"
      show "\<exists>gl. flow_heap s1 g = Some gl \<and> source gl = p"
      proof (cases "p = source fl")
        case True
        with p * have "flows src' = remove1 f (flows src)" by auto
        with g d have "g \<in> set (flows src)" "g \<noteq> f" by auto
        with assms(1) *(2) True * show ?thesis by (auto simp: flows_wf_def)
      next
        case False
        with p * have ps: "source_heap s p = Some src'" by simp
        with own g False have "g \<noteq> f" by blast
        with assms(1) ps g * show ?thesis by (auto simp: flows_wf_def)
      qed
    qed
  next
    fix g gl assume g: "flow_heap s1 g = Some gl"
    with * have gf: "g \<noteq> f" and gs: "flow_heap s g = Some gl" by (auto split: if_splits)
    from flows_wf_owner [OF assms(1) gs] obtain gsrc
      where gsrc: "source_heap s (source gl) = Some gsrc" "g \<in> set (flows gsrc)"
      by blast
    show "\<exists>src. source_heap s1 (source gl) = Some src \<and> g \<in> set (flows src)"
      using gsrc gf * by (auto)
  qed
qed


lemma delete_flow_accounts_wf:
  assumes t: "table_wf s" and fw: "flows_wf s" and a: "accounts_wf K s"
    and del: "dpi_ipv6_fragmentation_delete_flow K s f = Some s1"
  shows "accounts_wf K s1"
proof -
  from del obtain fl src where *: "flow_heap s f = Some fl"
    "source_heap s (source fl) = Some src" "f \<in> set (flows src)"
    and s1: "s1 = s\<lparr>total_used_mem := total_used_mem s - flow_cost K fl,
            timers := remove1 f (timers s),
            source_heap := (source_heap s)(source fl \<mapsto>
              src\<lparr>source_used_mem := source_used_mem src - flow_cost K fl,
                  flows := remove1 f (flows src)\<rparr>),
            flow_heap := (flow_heap s)(f := None)\<rparr>"
    by (rule delete_flow_SomeD)
  have fm: "flow_mem K s1 = (flow_mem K s)(f := 0)"
    by (auto simp: flow_mem_def s1 fun_eq_iff)
  have fmf: "flow_mem K s f = flow_cost K fl"
    by (simp add: flow_mem_def *)
  have d: "distinct (flows src)"
    using fw *(2) by (rule flows_wf_distinct)
  have sm: "source_mem s1 = (source_mem s)(source fl := source_used_mem src - flow_cost K fl)"
    by (auto simp: source_mem_def s1 fun_eq_iff)
  have sms: "source_mem s (source fl) = source_used_mem src"
    by (simp add: source_mem_def *)
  have tab: "sources_in_table s1 = sources_in_table s"
    by (simp add: sources_in_table_def s1)
  show ?thesis
    unfolding accounts_wf_def
  proof (intro conjI allI impI)
    fix p src' assume p: "source_heap s1 p = Some src'"
    show "source_used_mem src' = sizeof_source K + sum_list (map (flow_mem K s1) (flows src'))"
    proof (cases "p = source fl")
      case True
      with p s1 have src': "src' = src\<lparr>source_used_mem := source_used_mem src - flow_cost K fl,
                  flows := remove1 f (flows src)\<rparr>"
        by auto
      have "f \<notin> set (remove1 f (flows src))"
        using d by simp
      then have "sum_list (map (flow_mem K s1) (remove1 f (flows src)))
                 = sum_list (map (flow_mem K s) (remove1 f (flows src)))"
        unfolding fm by (rule sum_list_map_upd_notin)
      also have "\<dots> = sum_list (map (flow_mem K s) (flows src)) - flow_cost K fl"
        using *(3) by (simp add: sum_list_map_remove1_group fmf)
      finally show ?thesis
        using accounts_wf_source [OF a *(2)] by (simp add: src')
    next
      case False
      with p s1 have ps: "source_heap s p = Some src'"
        by simp
      have "f \<notin> set (flows src')"
        using flows_wf_unique_owner [OF fw *(1) ps] False by blast
      then have "sum_list (map (flow_mem K s1) (flows src'))
                 = sum_list (map (flow_mem K s) (flows src'))"
        unfolding fm by (rule sum_list_map_upd_notin)
      with accounts_wf_source [OF a ps] show ?thesis
        by simp
    qed
  next
    have "source fl \<in> set (sources_in_table s)"
      using t *(2) by (rule table_wf_member)
    with table_wf_distinct [OF t]
    have "sum_list (map (source_mem s1) (sources_in_table s1))
          = sum_list (map (source_mem s) (sources_in_table s)) - source_mem s (source fl)
            + (source_used_mem src - flow_cost K fl)"
      unfolding sm tab by (rule sum_list_map_upd_in)
    with accounts_wf_total [OF a] show "total_used_mem s1
        = sum_list (map (source_mem s1) (sources_in_table s1))"
      by (simp add: s1 sms)
  qed
qed

lemma delete_flow_wf:
  assumes "engine_wf K s" "dpi_ipv6_fragmentation_delete_flow K s f = Some s1"
  shows "engine_wf K s1"
  using assms
  by (auto simp: engine_wf_def intro: delete_flow_table_wf delete_flow_flows_wf
        delete_flow_timers_wf delete_flow_accounts_wf)

subsection \<open>Deleting a source keeps the invariants\<close>

lemma delete_flow_table:
  "dpi_ipv6_fragmentation_delete_flow K s f = Some s1 \<Longrightarrow> table s1 = table s"
  by (erule delete_flow_SomeD) simp

lemma delete_flows_wf:
  assumes "engine_wf K s" "source_heap s p = Some src" "delete_flows K s (flows src) = Some s'"
  shows "engine_wf K s' \<and> table s' = table s
         \<and> (\<exists>src'. source_heap s' p = Some src' \<and> flows src' = [] \<and> row src' = row src)"
  using assms
proof (induction "flows src" arbitrary: s src)
  case Nil
  then show ?case by simp
next
  case (Cons f fs)
  from Cons.hyps(2) [symmetric] Cons.prems(3)
  obtain s1 where s1: "dpi_ipv6_fragmentation_delete_flow K s f = Some s1"
    and rest: "delete_flows K s1 fs = Some s'"
    by (auto split: option.splits)
  have fw: "flows_wf s"
    using Cons.prems(1) by (simp add: engine_wf_def)
  from s1 obtain fl srcf where *: "flow_heap s f = Some fl"
    "source_heap s (source fl) = Some srcf"
    and s1_eq: "s1 = s\<lparr>total_used_mem := total_used_mem s - flow_cost K fl,
            timers := remove1 f (timers s),
            source_heap := (source_heap s)(source fl \<mapsto>
              srcf\<lparr>source_used_mem := source_used_mem srcf - flow_cost K fl,
                  flows := remove1 f (flows srcf)\<rparr>),
            flow_heap := (flow_heap s)(f := None)\<rparr>"
    by (rule delete_flow_SomeD)
  have "f \<in> set (flows src)"
    using Cons.hyps(2) [symmetric] by simp
  from flows_wf_unique_owner [OF fw *(1) Cons.prems(2) this]
  have own: "source fl = p" by simp
  with * Cons.prems(2) have "srcf = src" by simp
  define src1 where "src1 = src\<lparr>source_used_mem := source_used_mem src - flow_cost K fl,
                  flows := remove1 f (flows src)\<rparr>"
  have p1: "source_heap s1 p = Some src1"
    by (simp add: s1_eq own \<open>srcf = src\<close> src1_def)
  have fl1: "fs = flows src1"
    using Cons.hyps(2) [symmetric] by (simp add: src1_def)
  have wf1: "engine_wf K s1"
    using Cons.prems(1) s1 by (rule delete_flow_wf)
  from Cons.hyps(1) [OF fl1 wf1 p1] rest fl1
  have "engine_wf K s' \<and> table s' = table s1
         \<and> (\<exists>src'. source_heap s' p = Some src' \<and> flows src' = [] \<and> row src' = row src1)"
    by simp
  then show ?case
    by (simp add: delete_flow_table [OF s1] src1_def)
qed


lemma delete_source_SomeD:
  assumes "dpi_ipv6_fragmentation_delete_source K s p = Some s'"
  obtains src s1 where "source_heap s p = Some src" "delete_flows K s (flows src) = Some s1"
    "unat (row src) < length (table s1)" "p \<in> set (table s1 ! unat (row src))"
    "s' = s1\<lparr>table := (table s1)[unat (row src) := remove1 p (table s1 ! unat (row src))],
             source_heap := (source_heap s1)(p := None),
             total_used_mem := total_used_mem s1 - sizeof_source K\<rparr>"
  using assms
  by (auto simp: dpi_ipv6_fragmentation_delete_source_def split: option.splits if_splits)

lemma delete_source_wf:
  assumes wf: "engine_wf K s" and del: "dpi_ipv6_fragmentation_delete_source K s p = Some s'"
  shows "engine_wf K s'"
proof -
  from del obtain src s1 where src: "source_heap s p = Some src"
    and fl: "delete_flows K s (flows src) = Some s1"
    and i: "unat (row src) < length (table s1)" and pin: "p \<in> set (table s1 ! unat (row src))"
    and s': "s' = s1\<lparr>table := (table s1)[unat (row src) := remove1 p (table s1 ! unat (row src))],
             source_heap := (source_heap s1)(p := None),
             total_used_mem := total_used_mem s1 - sizeof_source K\<rparr>"
    by (rule delete_source_SomeD)
  from delete_flows_wf [OF wf src fl] obtain src1 where wf1: "engine_wf K s1"
    and p1: "source_heap s1 p = Some src1" and e1: "flows src1 = []"
    by blast
  have t1: "table_wf s1" and f1: "flows_wf s1" and tm1: "timers_wf s1" and a1: "accounts_wf K s1"
    using wf1 by (simp_all add: engine_wf_def)
  define i where "i = unat (row src)"
  have ms: "mset (sources_in_table s') = mset (remove1 p (sources_in_table s1))"
    using i pin by (simp add: s' sources_in_table_def mset_concat_update_remove1)
  have d1: "distinct (sources_in_table s1)"
    using t1 by (rule table_wf_distinct)
  have d': "distinct (sources_in_table s')"
    using mset_eq_imp_distinct_iff [OF ms] d1 by simp
  have set': "set (sources_in_table s') = set (sources_in_table s1) - {p}"
    using mset_eq_setD [OF ms] d1 by simp
  have heap': "\<And>q. q \<noteq> p \<Longrightarrow> source_heap s' q = source_heap s1 q"
    by (simp add: s')
  have gone: "source_heap s' p = None"
    by (simp add: s')
  have table: "table_wf s'"
    unfolding table_wf_def
  proof (intro conjI allI impI)
    show "distinct (sources_in_table s')" by (rule d')
    show "set (sources_in_table s') = dom (source_heap s')"
      using set' table_wf_dom [OF t1] by (auto simp: s')
    fix q srcq assume q: "source_heap s' q = Some srcq"
    then have qp: "q \<noteq> p" using gone by auto
    with q heap' have q1: "source_heap s1 q = Some srcq" by simp
    from table_wf_row [OF t1 q1] qp
    have "unat (row srcq) < length (table s') \<and> q \<in> set (table s' ! unat (row srcq))"
      by (cases "unat (row srcq) = unat (row src)") (auto simp: s')
    then show "unat (row srcq) < length (table s')" "q \<in> set (table s' ! unat (row srcq))"
      by simp_all
  qed
  have flows: "flows_wf s'"
    unfolding flows_wf_def
  proof (intro conjI allI impI)
    fix q srcq assume q: "source_heap s' q = Some srcq"
    then have qp: "q \<noteq> p" using gone by auto
    with q heap' have q1: "source_heap s1 q = Some srcq" by simp
    show "distinct (flows srcq)"
      using f1 q1 by (rule flows_wf_distinct)
    show "\<forall>f\<in>set (flows srcq). \<exists>fl. flow_heap s' f = Some fl \<and> source fl = q"
      using flows_wf_member [OF f1 q1] by (simp add: s')
  next
    fix f fl assume "flow_heap s' f = Some fl"
    then have f: "flow_heap s1 f = Some fl" by (simp add: s')
    from flows_wf_owner [OF f1 f] obtain srcf where
      o: "source_heap s1 (source fl) = Some srcf" "f \<in> set (flows srcf)"
      by blast
    with p1 e1 have "source fl \<noteq> p" by auto
    with o show "\<exists>src. source_heap s' (source fl) = Some src \<and> f \<in> set (flows src)"
      by (simp add: heap')
  qed
  have timers: "timers_wf s'"
    using tm1 by (simp add: timers_wf_def s')
  have fm: "flow_mem K s' = flow_mem K s1"
    by (simp add: flow_mem_def s' fun_eq_iff)
  have sm: "source_mem s' = (source_mem s1)(p := 0)"
    by (auto simp: source_mem_def s' fun_eq_iff)
  have used1: "source_mem s1 p = sizeof_source K"
    using accounts_wf_source [OF a1 p1] by (simp add: source_mem_def p1 e1)
  have accounts: "accounts_wf K s'"
    unfolding accounts_wf_def
  proof (intro conjI allI impI)
    fix q srcq assume q: "source_heap s' q = Some srcq"
    then have qp: "q \<noteq> p" using gone by auto
    with q heap' have q1: "source_heap s1 q = Some srcq" by simp
    show "source_used_mem srcq = sizeof_source K + sum_list (map (flow_mem K s') (flows srcq))"
      using accounts_wf_source [OF a1 q1] by (simp add: fm)
  next
    have pin1: "p \<in> set (sources_in_table s1)"
      using t1 p1 by (rule table_wf_member)
    have "sum_list (map (source_mem s') (sources_in_table s'))
          = sum_list (map (source_mem s') (remove1 p (sources_in_table s1)))"
      using ms by (rule sum_list_map_mset_cong)
    also have "\<dots> = sum_list (map (source_mem s1) (remove1 p (sources_in_table s1)))"
      unfolding sm using d1 by (intro sum_list_map_upd_notin) simp
    also have "\<dots> = sum_list (map (source_mem s1) (sources_in_table s1)) - sizeof_source K"
      using pin1 by (simp add: sum_list_map_remove1_group used1)
    finally show "total_used_mem s' = sum_list (map (source_mem s') (sources_in_table s'))"
      using accounts_wf_total [OF a1] by (simp add: s')
  qed
  show ?thesis
    using table flows timers accounts by (simp add: engine_wf_def)
qed

lemma delete_flow_and_empty_source_wf:
  assumes "engine_wf K s" "delete_flow_and_empty_source K s f p = Some s'"
  shows "engine_wf K s'"
  using assms
  by (auto simp: delete_flow_and_empty_source_def split: option.splits if_splits
        intro: delete_flow_wf delete_source_wf)

subsection \<open>Finding or creating a source keeps the invariants\<close>

lemma find_or_create_source_cases:
  assumes "dpi_ipv6_fragmentation_find_or_create_source K M s addr = Some (r, s1)"
  obtains (same) "s1 = s" "r = None \<or> (\<exists>p. r = Some p \<and> source_heap s p \<noteq> None)"
  | (new) p h where "r = Some p" "source_heap s p = None" "unat h < length (table s)"
      "s1 = s\<lparr>source_heap := (source_heap s)(p \<mapsto>
                  \<lparr>flows = [], source_used_mem = sizeof_source K,
                   ipv6_srcaddr = addr, row = h\<rparr>),
               total_used_mem := total_used_mem s + sizeof_source K,
               table := (table s)[unat h := p # (table s ! unat h)]\<rparr>"
proof -
  have found: "find_source H ps a = Some (Some q) \<Longrightarrow> H q \<noteq> None" for H ps a q
    by (induction ps) (auto split: option.splits if_splits)
  from assms obtain h where h: "dpi_ipv6_fragmentation_hash_function s addr = Some h"
    "unat h < length (table s)"
    by (auto simp: dpi_ipv6_fragmentation_find_or_create_source_def
          split: option.splits if_splits)
  note unfold = dpi_ipv6_fragmentation_find_or_create_source_def Let_def h
  show ?thesis
  proof (cases "find_source (source_heap s) (table s ! unat h) addr")
    case None
    with assms show ?thesis by (simp add: unfold)
  next
    case (Some x)
    show ?thesis
    proof (cases x)
      case (Some q)
      with \<open>find_source (source_heap s) (table s ! unat h) addr = Some x\<close> assms found
      show ?thesis by (intro same) (auto simp: unfold)
    next
      case None
      note nf = \<open>find_source (source_heap s) (table s ! unat h) addr = Some x\<close> None
      show ?thesis
      proof (cases "malloc_source M")
        case None
        with nf assms show ?thesis by (intro same) (auto simp: unfold)
      next
        case (Some p)
        with nf assms h(2) show ?thesis
          by (intro new [of p h]) (auto simp: unfold split: if_splits)
      qed
    qed
  qed
qed

lemma find_or_create_source_wf:
  assumes wf: "engine_wf K s"
    and fc: "dpi_ipv6_fragmentation_find_or_create_source K M s addr = Some (r, s1)"
  shows "engine_wf K s1"
  using fc
proof (cases rule: find_or_create_source_cases)
  case same
  with wf show ?thesis by simp
next
  case (new p h)
  have t: "table_wf s" and f: "flows_wf s" and tm: "timers_wf s" and a: "accounts_wf K s"
    using wf by (simp_all add: engine_wf_def)
  have pnot: "p \<notin> set (sources_in_table s)"
    using table_wf_dom [OF t] new(2) by auto
  have ms: "mset (sources_in_table s1) = mset (p # sources_in_table s)"
    using new(3) by (simp add: new(4) sources_in_table_def mset_concat_update_cons)
  have d1: "distinct (sources_in_table s1)"
    using mset_eq_imp_distinct_iff [OF ms] table_wf_distinct [OF t] pnot by simp
  have set1: "set (sources_in_table s1) = insert p (set (sources_in_table s))"
    using mset_eq_setD [OF ms] by simp
  have heap1: "\<And>q. q \<noteq> p \<Longrightarrow> source_heap s1 q = source_heap s q"
    by (simp add: new(4))
  have table: "table_wf s1"
    unfolding table_wf_def
  proof (intro conjI allI impI)
    show "distinct (sources_in_table s1)" by (rule d1)
    show "set (sources_in_table s1) = dom (source_heap s1)"
      using set1 table_wf_dom [OF t] by (auto simp: new(4))
    fix q srcq assume q: "source_heap s1 q = Some srcq"
    have "unat (row srcq) < length (table s1) \<and> q \<in> set (table s1 ! unat (row srcq))"
    proof (cases "q = p")
      case True
      with q new(3) show ?thesis by (auto simp: new(4))
    next
      case False
      with q heap1 have "source_heap s q = Some srcq" by simp
      from table_wf_row [OF t this] show ?thesis
        by (cases "unat (row srcq) = unat h") (auto simp: new(4))
    qed
    then show "unat (row srcq) < length (table s1)" "q \<in> set (table s1 ! unat (row srcq))"
      by simp_all
  qed
  have flows: "flows_wf s1"
    unfolding flows_wf_def
  proof (intro conjI allI impI)
    fix q srcq assume q: "source_heap s1 q = Some srcq"
    show "distinct (flows srcq)"
      using q flows_wf_distinct [OF f] by (cases "q = p") (auto simp: new(4))
    show "\<forall>g\<in>set (flows srcq). \<exists>fl. flow_heap s1 g = Some fl \<and> source fl = q"
      using q flows_wf_member [OF f] by (cases "q = p") (auto simp: new(4))
  next
    fix g gl assume "flow_heap s1 g = Some gl"
    then have g: "flow_heap s g = Some gl" by (simp add: new(4))
    from flows_wf_owner [OF f g] new(2)
    show "\<exists>src. source_heap s1 (source gl) = Some src \<and> g \<in> set (flows src)"
      by (auto simp: new(4))
  qed
  have timers: "timers_wf s1"
    using tm by (simp add: timers_wf_def new(4))
  have fm: "flow_mem K s1 = flow_mem K s"
    by (simp add: flow_mem_def new(4) fun_eq_iff)
  have sm: "source_mem s1 = (source_mem s)(p := sizeof_source K)"
    by (auto simp: source_mem_def new(4) fun_eq_iff)
  have accounts: "accounts_wf K s1"
    unfolding accounts_wf_def
  proof (intro conjI allI impI)
    fix q srcq assume q: "source_heap s1 q = Some srcq"
    show "source_used_mem srcq = sizeof_source K + sum_list (map (flow_mem K s1) (flows srcq))"
    proof (cases "q = p")
      case True
      with q show ?thesis by (auto simp: new(4))
    next
      case False
      with q heap1 have "source_heap s q = Some srcq" by simp
      from accounts_wf_source [OF a this] show ?thesis by (simp add: fm)
    qed
  next
    have "sum_list (map (source_mem s1) (sources_in_table s1))
          = sum_list (map (source_mem s1) (p # sources_in_table s))"
      using ms by (rule sum_list_map_mset_cong)
    also have "\<dots> = sizeof_source K + sum_list (map (source_mem s) (sources_in_table s))"
      using pnot by (simp add: sm sum_list_map_upd_notin)
    finally show "total_used_mem s1 = sum_list (map (source_mem s1) (sources_in_table s1))"
      using accounts_wf_total [OF a] by (simp add: new(4))
  qed
  show ?thesis
    using table flows timers accounts by (simp add: engine_wf_def)
qed

subsection \<open>Finding or creating a flow keeps the invariants\<close>

lemma find_flow_member:
  "find_flow H fs i d = Some (Some f) \<Longrightarrow> f \<in> set fs \<and> H f \<noteq> None"
  by (induction fs) (auto split: option.splits if_splits)

lemma find_or_create_flow_cases:
  assumes "dpi_ipv6_fragmentation_find_or_create_flow K M s p i d now = Some (r, s1)"
  obtains (none) "s1 = s" "r = None"
  | (found) f src fl where "s1 = s" "r = Some f" "source_heap s p = Some src"
      "f \<in> set (flows src)" "flow_heap s f = Some fl"
  | (new) f src where "r = Some f" "flow_heap s f = None" "source_heap s p = Some src"
      "s1 = s\<lparr>source_heap := (source_heap s)(p \<mapsto>
                  src\<lparr>source_used_mem := source_used_mem src + sizeof_flow K,
                      flows := f # flows src\<rparr>),
               total_used_mem := total_used_mem s + sizeof_flow K,
               timers := timers s @ [f],
               flow_heap := (flow_heap s)(f \<mapsto>
                  \<lparr>unfragmentable = None, unfragmentable_length = 0, len = 0,
                   ident = i, dstaddr = d, fragments = [],
                   timer_expiration_time = now + ucast (timeout s), source = p\<rparr>)\<rparr>"
proof -
  from assms obtain src where src: "source_heap s p = Some src"
    by (auto simp: dpi_ipv6_fragmentation_find_or_create_flow_def split: option.splits)
  note unfold = dpi_ipv6_fragmentation_find_or_create_flow_def src dpi_reassembly_add_timer_def
  show ?thesis
  proof (cases "find_flow (flow_heap s) (flows src) i d")
    case None
    with assms show ?thesis by (simp add: unfold)
  next
    case (Some x)
    show ?thesis
    proof (cases x)
      case (Some f)
      with \<open>find_flow (flow_heap s) (flows src) i d = Some x\<close>
      have ff: "find_flow (flow_heap s) (flows src) i d = Some (Some f)" by simp
      from find_flow_member [OF ff] obtain fl where "f \<in> set (flows src)" "flow_heap s f = Some fl"
        by auto
      with ff assms src show ?thesis
        by (intro found [of f src fl]) (auto simp: unfold)
    next
      case None
      note nf = \<open>find_flow (flow_heap s) (flows src) i d = Some x\<close> None
      show ?thesis
      proof (cases "malloc_flow M")
        case None
        with nf assms show ?thesis by (intro none) (auto simp: unfold)
      next
        case (Some f)
        with nf assms src show ?thesis
          by (intro new [of f src]) (auto simp: unfold split: if_splits)
      qed
    qed
  qed
qed

lemma find_or_create_flow_wf:
  assumes wf: "engine_wf K s"
    and fc: "dpi_ipv6_fragmentation_find_or_create_flow K M s p i d now = Some (r, s1)"
  shows "engine_wf K s1"
  using fc
proof (cases rule: find_or_create_flow_cases)
  case none
  with wf show ?thesis by simp
next
  case (found f src fl)
  with wf show ?thesis by simp
next
  case (new f src)
  have t: "table_wf s" and fw: "flows_wf s" and tm: "timers_wf s" and a: "accounts_wf K s"
    using wf by (simp_all add: engine_wf_def)
  define fl0 where "fl0 = \<lparr>unfragmentable = None, unfragmentable_length = 0, len = 0,
                   ident = i, dstaddr = d, fragments = [],
                   timer_expiration_time = now + ucast (timeout s), source = p\<rparr>"
  define src1 where "src1 = src\<lparr>source_used_mem := source_used_mem src + sizeof_flow K,
                      flows := f # flows src\<rparr>"
  have s1: "s1 = s\<lparr>source_heap := (source_heap s)(p \<mapsto> src1),
               total_used_mem := total_used_mem s + sizeof_flow K,
               timers := timers s @ [f],
               flow_heap := (flow_heap s)(f \<mapsto> fl0)\<rparr>"
    by (simp add: new(4) fl0_def src1_def)
  have fresh: "\<And>q srcq. source_heap s q = Some srcq \<Longrightarrow> f \<notin> set (flows srcq)"
    using flows_wf_member [OF fw] new(2) by fastforce
  have heap1: "\<And>q. q \<noteq> p \<Longrightarrow> source_heap s1 q = source_heap s q"
    by (simp add: s1)
  have p1: "source_heap s1 p = Some src1"
    by (simp add: s1)
  have table: "table_wf s1"
  proof -
    have "dom (source_heap s1) = dom (source_heap s)"
      using new(3) by (auto simp: s1)
    moreover have "sources_in_table s1 = sources_in_table s"
      by (simp add: s1 sources_in_table_def)
    moreover have "unat (row srcq) < length (table s1) \<and> q \<in> set (table s1 ! unat (row srcq))"
      if "source_heap s1 q = Some srcq" for q srcq
    proof (cases "q = p")
      case True
      with that p1 have "row srcq = row src" by (auto simp: src1_def)
      with table_wf_row [OF t new(3)] True show ?thesis by (simp add: s1)
    next
      case False
      with that heap1 have "source_heap s q = Some srcq" by simp
      from table_wf_row [OF t this] show ?thesis by (simp add: s1)
    qed
    ultimately show ?thesis
      using t by (simp add: table_wf_def)
  qed
  have flows: "flows_wf s1"
    unfolding flows_wf_def
  proof (intro conjI allI impI)
    fix q srcq assume q: "source_heap s1 q = Some srcq"
    show "distinct (flows srcq)"
    proof (cases "q = p")
      case True
      with q p1 have "flows srcq = f # flows src" by (auto simp: src1_def)
      with fresh [OF new(3)] flows_wf_distinct [OF fw new(3)] show ?thesis by simp
    next
      case False
      with q heap1 have "source_heap s q = Some srcq" by simp
      with fw show ?thesis by (rule flows_wf_distinct)
    qed
    show "\<forall>g\<in>set (flows srcq). \<exists>gl. flow_heap s1 g = Some gl \<and> source gl = q"
    proof
      fix g assume g: "g \<in> set (flows srcq)"
      show "\<exists>gl. flow_heap s1 g = Some gl \<and> source gl = q"
      proof (cases "g = f")
        case True
        have "q = p"
        proof (rule ccontr)
          assume "q \<noteq> p"
          with q heap1 have "source_heap s q = Some srcq" by simp
          from fresh [OF this] g True show False by simp
        qed
        with True show ?thesis by (simp add: s1 fl0_def)
      next
        case False
        have "\<exists>gl. flow_heap s g = Some gl \<and> source gl = q"
        proof (cases "q = p")
          case True
          with q p1 g False have "g \<in> set (flows src)" by (auto simp: src1_def)
          from flows_wf_member [OF fw new(3) this] True show ?thesis by simp
        next
          case False
          with q heap1 have "source_heap s q = Some srcq" by simp
          from flows_wf_member [OF fw this g] show ?thesis .
        qed
        with False show ?thesis by (simp add: s1)
      qed
    qed
  next
    fix g gl assume g: "flow_heap s1 g = Some gl"
    show "\<exists>srcg. source_heap s1 (source gl) = Some srcg \<and> g \<in> set (flows srcg)"
    proof (cases "g = f")
      case True
      with g have "gl = fl0" by (simp add: s1)
      with True p1 show ?thesis by (simp add: fl0_def src1_def)
    next
      case False
      with g have "flow_heap s g = Some gl" by (simp add: s1)
      from flows_wf_owner [OF fw this] obtain srcg where
        o: "source_heap s (source gl) = Some srcg" "g \<in> set (flows srcg)" by blast
      show ?thesis
      proof (cases "source gl = p")
        case True
        with o new(3) p1 show ?thesis by (auto simp: src1_def)
      next
        case False
        with o heap1 show ?thesis by simp
      qed
    qed
  qed
  have timers: "timers_wf s1"
  proof -
    have "f \<notin> set (timers s)"
      using tm new(2) by (auto simp: timers_wf_def)
    with tm show ?thesis by (auto simp: timers_wf_def s1)
  qed
  have fm: "flow_mem K s1 = (flow_mem K s)(f := sizeof_flow K)"
    by (auto simp: flow_mem_def s1 fun_eq_iff flow_cost_def fl0_def unfragmentable_cost_def)
  have sm: "source_mem s1 = (source_mem s)(p := source_used_mem src + sizeof_flow K)"
    by (auto simp: source_mem_def s1 fun_eq_iff src1_def)
  have accounts: "accounts_wf K s1"
    unfolding accounts_wf_def
  proof (intro conjI allI impI)
    fix q srcq assume q: "source_heap s1 q = Some srcq"
    show "source_used_mem srcq = sizeof_source K + sum_list (map (flow_mem K s1) (flows srcq))"
    proof (cases "q = p")
      case True
      with q p1 have srcq: "srcq = src1" by simp
      have "sum_list (map (flow_mem K s1) (flows src)) = sum_list (map (flow_mem K s) (flows src))"
        unfolding fm using fresh [OF new(3)] by (rule sum_list_map_upd_notin)
      with accounts_wf_source [OF a new(3)] show ?thesis
        by (simp add: srcq src1_def fm)
    next
      case False
      with q heap1 have qs: "source_heap s q = Some srcq" by simp
      have "sum_list (map (flow_mem K s1) (flows srcq)) = sum_list (map (flow_mem K s) (flows srcq))"
        unfolding fm using fresh [OF qs] by (rule sum_list_map_upd_notin)
      with accounts_wf_source [OF a qs] show ?thesis by simp
    qed
  next
    have tab: "sources_in_table s1 = sources_in_table s"
      by (simp add: s1 sources_in_table_def)
    have "sum_list (map (source_mem s1) (sources_in_table s1))
          = sum_list (map (source_mem s) (sources_in_table s)) - source_mem s p
            + (source_used_mem src + sizeof_flow K)"
      unfolding sm tab
      using table_wf_distinct [OF t] table_wf_member [OF t new(3)] by (rule sum_list_map_upd_in)
    with accounts_wf_total [OF a]
    show "total_used_mem s1 = sum_list (map (source_mem s1) (sources_in_table s1))"
      by (simp add: s1 source_mem_def new(3))
  qed
  show ?thesis
    using table flows timers accounts by (simp add: engine_wf_def)
qed

subsection \<open>Charging a flow keeps the invariants\<close>

lemma charge_flow_wf:
  assumes wf: "engine_wf K s"
    and f: "flow_heap s f = Some fl" and p: "source_heap s p = Some src"
    and mem: "f \<in> set (flows src)"
    and same_source: "source fl' = source fl"
    and cost: "flow_cost K fl' = flow_cost K fl + d"
    and s1: "s1 = s\<lparr>flow_heap := (flow_heap s)(f \<mapsto> fl'),
                    total_used_mem := total_used_mem s + d,
                    source_heap := (source_heap s)(p \<mapsto>
                       src\<lparr>source_used_mem := source_used_mem src + d\<rparr>)\<rparr>"
  shows "engine_wf K s1"
proof -
  have t: "table_wf s" and fw: "flows_wf s" and tm: "timers_wf s" and a: "accounts_wf K s"
    using wf by (simp_all add: engine_wf_def)
  have own: "source fl = p"
    using flows_wf_unique_owner [OF fw f p mem] by simp
  define src1 where "src1 = src\<lparr>source_used_mem := source_used_mem src + d\<rparr>"
  have heap1: "\<And>q. q \<noteq> p \<Longrightarrow> source_heap s1 q = source_heap s q"
    by (simp add: s1)
  have p1: "source_heap s1 p = Some src1"
    by (simp add: s1 src1_def)
  have fheap1: "\<And>g. g \<noteq> f \<Longrightarrow> flow_heap s1 g = flow_heap s g"
    by (simp add: s1)
  have f1: "flow_heap s1 f = Some fl'"
    by (simp add: s1)
  have srcs: "\<exists>srcq'. source_heap s q = Some srcq' \<and> flows srcq' = flows srcq
                \<and> row srcq' = row srcq"
    if "source_heap s1 q = Some srcq" for q srcq
    using that p p1 heap1 [of q] by (cases "q = p") (auto simp: src1_def)
  have table: "table_wf s1"
  proof -
    have "dom (source_heap s1) = dom (source_heap s)"
      using p by (auto simp: s1)
    moreover have "sources_in_table s1 = sources_in_table s"
      by (simp add: s1 sources_in_table_def)
    moreover have "unat (row srcq) < length (table s1) \<and> q \<in> set (table s1 ! unat (row srcq))"
      if "source_heap s1 q = Some srcq" for q srcq
    proof -
      from srcs [OF that] obtain srcq' where q': "source_heap s q = Some srcq'"
        "row srcq' = row srcq" by blast
      from table_wf_row [OF t q'(1)] q'(2) show ?thesis by (simp add: s1)
    qed
    ultimately show ?thesis
      using t by (simp add: table_wf_def)
  qed
  have flows: "flows_wf s1"
    unfolding flows_wf_def
  proof (intro conjI allI impI)
    fix q srcq assume q: "source_heap s1 q = Some srcq"
    from srcs [OF q] obtain srcq' where q': "source_heap s q = Some srcq'"
      "flows srcq' = flows srcq" by blast
    show "distinct (flows srcq)"
      using flows_wf_distinct [OF fw q'(1)] q'(2) by simp
    show "\<forall>g\<in>set (flows srcq). \<exists>gl. flow_heap s1 g = Some gl \<and> source gl = q"
    proof
      fix g assume "g \<in> set (flows srcq)"
      then have g: "g \<in> set (flows srcq')" using q'(2) by simp
      from flows_wf_member [OF fw q'(1) g] obtain gl where
        gl: "flow_heap s g = Some gl" "source gl = q" by blast
      show "\<exists>gl. flow_heap s1 g = Some gl \<and> source gl = q"
      proof (cases "g = f")
        case True
        with gl f same_source f1 show ?thesis by simp
      next
        case False
        with gl fheap1 show ?thesis by simp
      qed
    qed
  next
    fix g gl assume g: "flow_heap s1 g = Some gl"
    have "\<exists>gl'. flow_heap s g = Some gl' \<and> source gl' = source gl"
      using g f f1 fheap1 [of g] same_source by (cases "g = f") auto
    then obtain gl' where gl': "flow_heap s g = Some gl'" "source gl' = source gl" by blast
    from flows_wf_owner [OF fw gl'(1)] gl'(2) obtain srcg where
      o: "source_heap s (source gl) = Some srcg" "g \<in> set (flows srcg)" by auto
    show "\<exists>srcg. source_heap s1 (source gl) = Some srcg \<and> g \<in> set (flows srcg)"
    proof (cases "source gl = p")
      case True
      with o p p1 show ?thesis by (auto simp: src1_def)
    next
      case False
      with o heap1 show ?thesis by simp
    qed
  qed
  have timers: "timers_wf s1"
  proof -
    have "dom (flow_heap s1) = dom (flow_heap s)"
      using f by (auto simp: s1)
    with tm show ?thesis by (simp add: timers_wf_def s1)
  qed
  have fm: "flow_mem K s1 = (flow_mem K s)(f := flow_cost K fl + d)"
    by (auto simp: flow_mem_def s1 fun_eq_iff cost)
  have fmf: "flow_mem K s f = flow_cost K fl"
    by (simp add: flow_mem_def f)
  have sm: "source_mem s1 = (source_mem s)(p := source_used_mem src + d)"
    by (auto simp: source_mem_def s1 fun_eq_iff)
  have accounts: "accounts_wf K s1"
    unfolding accounts_wf_def
  proof (intro conjI allI impI)
    fix q srcq assume q: "source_heap s1 q = Some srcq"
    show "source_used_mem srcq = sizeof_source K + sum_list (map (flow_mem K s1) (flows srcq))"
    proof (cases "q = p")
      case True
      with q p1 have srcq: "srcq = src1" by simp
      have "sum_list (map (flow_mem K s1) (flows src))
            = sum_list (map (flow_mem K s) (flows src)) - flow_mem K s f + (flow_cost K fl + d)"
        unfolding fm using flows_wf_distinct [OF fw p] mem by (rule sum_list_map_upd_in)
      with accounts_wf_source [OF a p] show ?thesis
        by (simp add: srcq src1_def fmf)
    next
      case False
      with q heap1 have qs: "source_heap s q = Some srcq" by simp
      have "f \<notin> set (flows srcq)"
        using flows_wf_unique_owner [OF fw f qs] own False by blast
      then have "sum_list (map (flow_mem K s1) (flows srcq))
                 = sum_list (map (flow_mem K s) (flows srcq))"
        unfolding fm by (rule sum_list_map_upd_notin)
      with accounts_wf_source [OF a qs] show ?thesis by simp
    qed
  next
    have tab: "sources_in_table s1 = sources_in_table s"
      by (simp add: s1 sources_in_table_def)
    have "sum_list (map (source_mem s1) (sources_in_table s1))
          = sum_list (map (source_mem s) (sources_in_table s)) - source_mem s p
            + (source_used_mem src + d)"
      unfolding sm tab
      using table_wf_distinct [OF t] table_wf_member [OF t p] by (rule sum_list_map_upd_in)
    with accounts_wf_total [OF a]
    show "total_used_mem s1 = sum_list (map (source_mem s1) (sources_in_table s1))"
      by (simp add: s1 source_mem_def p)
  qed
  show ?thesis
    using table flows timers accounts by (simp add: engine_wf_def)
qed

subsection \<open>Storing a fragment keeps the invariants\<close>

lemma unfragmentable_cost_update [simp]:
  "unfragmentable_cost (fl\<lparr>fragments := x\<rparr>) = unfragmentable_cost fl"
  "unfragmentable_cost (fl\<lparr>len := y\<rparr>) = unfragmentable_cost fl"
  by (simp_all add: unfragmentable_cost_def split: option.splits)

lemma store_unfragmentable_wf:
  assumes wf: "engine_wf K s"
    and p: "source_heap s p = Some src" and mem: "f \<in> set (flows src)"
    and st: "store_unfragmentable K M mem' s p f us usize nh = Some c"
  shows "engine_wf K (state_of c)"
proof -
  from st obtain fl where f: "flow_heap s f = Some fl"
    by (auto simp: store_unfragmentable_def split: option.splits)
  show ?thesis
  proof (cases "unfragmentable fl")
    case (Some u)
    with st f wf show ?thesis
      by (auto simp: store_unfragmentable_def)
  next
    case None
    show ?thesis
    proof (cases "malloc_unfragmentable M")
      case False
      with st f None obtain s1 where "dpi_ipv6_fragmentation_delete_flow K s f = Some s1"
        "c = Return_NULL s1"
        by (auto simp: store_unfragmentable_def)
      with delete_flow_wf [OF wf] show ?thesis by simp
    next
      case True
      define fl' where "fl' = fl\<lparr>unfragmentable :=
                                   Some ((bytes_at mem' us (unat usize))[6 := nh]),
                                 unfragmentable_length := usize\<rparr>"
      define s1 where "s1 = s\<lparr>flow_heap := (flow_heap s)(f \<mapsto> fl'),
                    total_used_mem := total_used_mem s + ucast usize,
                    source_heap := (source_heap s)(p \<mapsto>
                       src\<lparr>source_used_mem := source_used_mem src + ucast usize\<rparr>)\<rparr>"
      from st f None True p have c: "c = Go_on s1"
        by (auto simp: store_unfragmentable_def s1_def fl'_def split: if_splits)
      have cost: "flow_cost K fl' = flow_cost K fl + ucast usize"
        by (simp add: flow_cost_def fl'_def unfragmentable_cost_def None)
      have ss: "source fl' = source fl"
        by (simp add: fl'_def)
      have "engine_wf K s1"
        by (rule charge_flow_wf [OF wf f p mem ss cost s1_def])
      with c show ?thesis by simp
    qed
  qed
qed

lemma store_unfragmentable_member:
  assumes p: "source_heap s p = Some src" and mem: "f \<in> set (flows src)"
    and st: "store_unfragmentable K M mem' s p f us usize nh = Some (Go_on s1)"
  shows "\<exists>src1. source_heap s1 p = Some src1 \<and> f \<in> set (flows src1)"
  using assms
  by (auto simp: store_unfragmentable_def split: option.splits if_splits)

lemma build_complete_datagram_wf:
  assumes wf: "engine_wf K s"
    and b: "dpi_ipv6_fragmentation_build_complete_datagram K M s f = Some (r, s')"
  shows "engine_wf K s'"
  using b wf
  by (auto simp: dpi_ipv6_fragmentation_build_complete_datagram_def Let_def
        split: option.splits if_splits prod.splits
        intro: delete_flow_and_empty_source_wf)

lemma insert_and_check_cases:
  assumes "insert_and_check K M mem' s p f fs fsize off e mf = Some (r, s')"
  obtains (dropped) "s' = s" "r = None"
  | (inserted) fl fl1 src frags removed inserted s1 where
      "flow_heap s f = Some fl" "source_heap s p = Some src"
      "fl1 = (if mf = 0 then fl\<lparr>len := ucast e\<rparr> else fl)"
      "dpi_reassembly_insert_fragment (fragments fl1) (bytes_at mem' fs (unat fsize))
         (ucast off) e = Some (frags, removed, inserted)"
      "s1 = s\<lparr>flow_heap := (flow_heap s)(f \<mapsto> fl1\<lparr>fragments := frags\<rparr>),
               total_used_mem := total_used_mem s + (inserted - removed),
               source_heap := (source_heap s)(p \<mapsto>
                  src\<lparr>source_used_mem := source_used_mem src + (inserted - removed)\<rparr>)\<rparr>"
      "(if len fl1 \<noteq> 0 \<and> dpi_reassembly_ip_check_train_of_contiguous_fragments frags
        then dpi_ipv6_fragmentation_build_complete_datagram K M s1 f
        else Some (None, s1)) = Some (r, s')"
proof -
  from assms obtain fl where f: "flow_heap s f = Some fl"
    by (auto simp: insert_and_check_def split: option.splits)
  show ?thesis
  proof (cases "mf = 0 \<and> len fl \<noteq> 0")
    case True
    with assms f show ?thesis by (intro dropped) (auto simp: insert_and_check_def)
  next
    case False
    define fl1 where "fl1 = (if mf = 0 then fl\<lparr>len := ucast e\<rparr> else fl)"
    from assms f False obtain frags removed inserted where
      ins: "dpi_reassembly_insert_fragment (fragments fl1) (bytes_at mem' fs (unat fsize))
              (ucast off) e = Some (frags, removed, inserted)"
      by (auto simp: insert_and_check_def Let_def fl1_def split: option.splits if_splits)
    from assms f False ins obtain src where p: "source_heap s p = Some src"
      by (auto simp: insert_and_check_def Let_def fl1_def [symmetric] split: option.splits)
    define s1 where "s1 = s\<lparr>flow_heap := (flow_heap s)(f \<mapsto> fl1\<lparr>fragments := frags\<rparr>),
               total_used_mem := total_used_mem s + (inserted - removed),
               source_heap := (source_heap s)(p \<mapsto>
                  src\<lparr>source_used_mem := source_used_mem src + (inserted - removed)\<rparr>)\<rparr>"
    have "(if len fl1 \<noteq> 0 \<and> dpi_reassembly_ip_check_train_of_contiguous_fragments frags
           then dpi_ipv6_fragmentation_build_complete_datagram K M s1 f
           else Some (None, s1)) = Some (r, s')"
      using assms f False ins p
      by (auto simp: insert_and_check_def Let_def fl1_def [symmetric] s1_def add_diff_eq)
    with f p fl1_def ins s1_def show ?thesis
      by (rule inserted)
  qed
qed

lemma insert_and_check_wf:
  assumes wf: "engine_wf K s"
    and p: "source_heap s p = Some src" and mem: "f \<in> set (flows src)"
    and ic: "insert_and_check K M mem' s p f fs fsize off e mf = Some (r, s')"
  shows "engine_wf K s'"
  using ic
proof (cases rule: insert_and_check_cases)
  case dropped
  with wf show ?thesis by simp
next
  case (inserted fl fl1 src' frags removed inserted s1)
  from p inserted(2) have src': "src' = src" by simp
  have frs: "fragments fl1 = fragments fl" "unfragmentable_cost fl1 = unfragmentable_cost fl"
    "source fl1 = source fl"
    by (simp_all add: inserted(3))
  from insert_fragment_bytes [OF inserted(4)]
  have "fragment_bytes frags = fragment_bytes (fragments fl) + (inserted - removed)"
    by (simp add: frs algebra_simps)
  then have cost: "flow_cost K (fl1\<lparr>fragments := frags\<rparr>)
                   = flow_cost K fl + (inserted - removed)"
    by (simp add: flow_cost_def frs)
  have ss: "source (fl1\<lparr>fragments := frags\<rparr>) = source fl"
    by (simp add: frs)
  have wf1: "engine_wf K s1"
    by (rule charge_flow_wf [OF wf inserted(1) p mem ss cost inserted(5) [unfolded src']])
  with inserted(6) build_complete_datagram_wf [OF wf1] show ?thesis
    by (auto split: if_splits)
qed

lemma manage_flow_wf:
  assumes wf: "engine_wf K s"
    and p: "source_heap s p = Some src" and mem: "f \<in> set (flows src)"
    and mf: "manage_flow K M mem' s p f us usize fs fsize off e mf nh = Some (r, s')"
  shows "engine_wf K s'"
proof -
  from mf obtain fl where f: "flow_heap s f = Some fl"
    by (auto simp: manage_flow_def split: option.splits)
  show ?thesis
  proof (cases "len fl \<noteq> 0 \<and> off > len fl")
    case True
    with mf f wf show ?thesis by (auto simp: manage_flow_def)
  next
    case False
    with mf f obtain c where st: "store_unfragmentable K M mem' s p f us usize nh = Some c"
      by (auto simp: manage_flow_def split: option.splits)
    show ?thesis
    proof (cases c)
      case (Return_NULL s1)
      with mf f False st have "s' = s1" by (auto simp: manage_flow_def)
      with store_unfragmentable_wf [OF wf p mem st] Return_NULL show ?thesis by simp
    next
      case (Go_on s1)
      with mf f False st have ic: "insert_and_check K M mem' s1 p f fs fsize off e mf = Some (r, s')"
        by (auto simp: manage_flow_def)
      from store_unfragmentable_wf [OF wf p mem st] Go_on have wf1: "engine_wf K s1" by simp
      from store_unfragmentable_member [OF p mem st [unfolded Go_on]]
      obtain src1 where "source_heap s1 p = Some src1" "f \<in> set (flows src1)" by blast
      from insert_and_check_wf [OF wf1 this ic] show ?thesis .
    qed
  qed
qed

subsection \<open>The entry point keeps the invariants\<close>

lemma per_source_eviction_preserves:
  assumes "\<And>s f s1. P s \<Longrightarrow> dpi_ipv6_fragmentation_delete_flow K s f = Some s1 \<Longrightarrow> P s1"
    and "\<And>s q s1. P s \<Longrightarrow> dpi_ipv6_fragmentation_delete_source K s q = Some s1 \<Longrightarrow> P s1"
    and "P s" and "per_source_eviction K s p = Some c"
  shows "P (state_of c)"
  using assms
proof (induction K s p arbitrary: c rule: per_source_eviction.induct)
  case (1 K state source')
  note run = \<open>per_source_eviction K state source' = Some c\<close>
  from run obtain src where src: "source_heap state source' = Some src"
    by (subst (asm) per_source_eviction.simps) (auto split: option.splits)
  show ?case
  proof (cases "flows src")
    case Nil
    with run \<open>P state\<close> src show ?thesis
      by (subst (asm) per_source_eviction.simps) auto
  next
    case (Cons f fs)
    show ?thesis
    proof (cases "source_used_mem src > per_source_memory_limit state")
      case False
      with run \<open>P state\<close> src Cons show ?thesis
        by (subst (asm) per_source_eviction.simps) auto
    next
      case True
      with run src Cons obtain s1 src1 where
        del: "dpi_ipv6_fragmentation_delete_flow K state f = Some s1"
        and src1: "source_heap s1 source' = Some src1"
        and rest: "(if flows src1 = [] then map_option Return_NULL
                               (dpi_ipv6_fragmentation_delete_source K s1 source')
                           else per_source_eviction K s1 source') = Some c"
        by (subst (asm) per_source_eviction.simps) (auto split: option.splits)
      have P1: "P s1"
        using \<open>P state\<close> del by (rule "1.prems"(1))
      show ?thesis
      proof (cases "flows src1 = []")
        case True
        with rest obtain s2 where "dpi_ipv6_fragmentation_delete_source K s1 source' = Some s2"
          "c = Return_NULL s2" by auto
        with "1.prems"(2) [OF P1] show ?thesis by simp
      next
        case False
        with rest have "per_source_eviction K s1 source' = Some c" by simp
        from "1.IH" [OF src Cons True del src1 False "1.prems"(1,2) P1 this] show ?thesis .
      qed
    qed
  qed
qed

lemma timer_sweep_preserves:
  assumes "\<And>s f s1. P s \<Longrightarrow> dpi_ipv6_fragmentation_delete_flow K s f = Some s1 \<Longrightarrow> P s1"
    and "\<And>s q s1. P s \<Longrightarrow> dpi_ipv6_fragmentation_delete_source K s q = Some s1 \<Longrightarrow> P s1"
    and "P s" and "timer_sweep K s p now = Some c"
  shows "P (state_of c)"
  using assms
proof (induction K s p now arbitrary: c rule: timer_sweep.induct)
  case (1 K state source' current_time)
  note run = \<open>timer_sweep K state source' current_time = Some c\<close>
  show ?case
  proof (cases "timers state")
    case Nil
    with run \<open>P state\<close> show ?thesis
      by (subst (asm) timer_sweep.simps) auto
  next
    case (Cons t ts)
    with run obtain tf where tf: "flow_heap state t = Some tf"
      by (subst (asm) timer_sweep.simps) (auto split: option.splits)
    show ?thesis
    proof (cases "timer_expiration_time tf < current_time
                  \<or> total_used_mem state \<ge> total_memory_limit state")
      case False
      with run \<open>P state\<close> Cons tf show ?thesis
        by (subst (asm) timer_sweep.simps) auto
    next
      case True
      with run Cons tf obtain s1 src1 where
        del: "dpi_ipv6_fragmentation_delete_flow K state t = Some s1"
        and src1: "source_heap s1 source' = Some src1"
        and rest: "(if flows src1 = [] then map_option Return_NULL
                               (dpi_ipv6_fragmentation_delete_source K s1 (source tf))
                           else timer_sweep K s1 source' current_time) = Some c"
        by (subst (asm) timer_sweep.simps) (auto simp: Let_def split: option.splits)
      have P1: "P s1"
        using \<open>P state\<close> del by (rule "1.prems"(1))
      show ?thesis
      proof (cases "flows src1 = []")
        case True
        with rest obtain s2 where
          "dpi_ipv6_fragmentation_delete_source K s1 (source tf) = Some s2"
          "c = Return_NULL s2" by auto
        with "1.prems"(2) [OF P1] show ?thesis by simp
      next
        case False
        with rest have "timer_sweep K s1 source' current_time = Some c" by simp
        from "1.IH" [OF Cons tf True refl del src1 False "1.prems"(1,2) P1 this] show ?thesis .
      qed
    qed
  qed
qed

lemma per_source_eviction_wf:
  assumes "engine_wf K s" "per_source_eviction K s p = Some c"
  shows "engine_wf K (state_of c)"
  using delete_flow_wf delete_source_wf assms
  by (rule per_source_eviction_preserves [where P = "engine_wf K"])

lemma timer_sweep_wf:
  assumes "engine_wf K s" "timer_sweep K s p now = Some c"
  shows "engine_wf K (state_of c)"
  using delete_flow_wf delete_source_wf assms
  by (rule timer_sweep_preserves [where P = "engine_wf K"])

lemma manage_wf:
  assumes wf: "engine_wf K s"
    and m: "dpi_reordering_manage_ipv6_fragment K M mem' s us usize fs fsize off mf i nh now
            = Some (r, s')"
  shows "engine_wf K s'"
proof (cases "(ucast off + ucast fsize :: u32) > 65535")
  case True
  with m wf show ?thesis
    by (simp add: dpi_reordering_manage_ipv6_fragment_def DPI_DEBUG_FRAGMENTATION_v6_defined_def
          DPI_IP_FRAGMENTATION_MAX_DATAGRAM_SIZE_def)
next
  case False
  note unfold = dpi_reordering_manage_ipv6_fragment_def DPI_DEBUG_FRAGMENTATION_v6_defined_def
          DPI_IP_FRAGMENTATION_MAX_DATAGRAM_SIZE_def False Let_def
  from m obtain sp s1 where
    fs: "dpi_ipv6_fragmentation_find_or_create_source K M s (ip6_src mem' us) = Some (sp, s1)"
    by (auto simp: unfold split: option.splits)
  have wf1: "engine_wf K s1"
    using wf fs by (rule find_or_create_source_wf)
  show ?thesis
  proof (cases sp)
    case None
    with m fs wf1 show ?thesis by (auto simp: unfold)
  next
    case (Some p)
    with m fs obtain c2 where ev: "per_source_eviction K s1 p = Some c2"
      by (auto simp: unfold split: option.splits)
    have wf2: "engine_wf K (state_of c2)"
      using wf1 ev by (rule per_source_eviction_wf)
    show ?thesis
    proof (cases c2)
      case (Return_NULL s2)
      with m fs Some ev wf2 show ?thesis by (auto simp: unfold)
    next
      case (Go_on s2)
      with m fs Some ev obtain c3 where sw: "timer_sweep K s2 p now = Some c3"
        by (auto simp: unfold split: option.splits)
      have wf3: "engine_wf K (state_of c3)"
        using wf2 sw Go_on by (auto intro: timer_sweep_wf)
      show ?thesis
      proof (cases c3)
        case (Return_NULL s3)
        with m fs Some ev Go_on sw wf3 show ?thesis by (auto simp: unfold)
      next
        case c3: (Go_on s3)
        with m fs Some ev Go_on sw obtain fo s4 where
          ff: "dpi_ipv6_fragmentation_find_or_create_flow K M s3 p i (ip6_dst mem' us) now
               = Some (fo, s4)"
          by (auto simp: unfold split: option.splits)
        have wf4: "engine_wf K s4"
          using wf3 c3 ff by (auto intro: find_or_create_flow_wf)
        show ?thesis
        proof (cases fo)
          case None
          with m fs Some ev Go_on sw c3 ff wf4 show ?thesis by (auto simp: unfold)
        next
          case fo: (Some f)
          with m fs Some ev Go_on sw c3 ff have
            mfl: "manage_flow K M mem' s4 p f us usize fs fsize off (ucast off + ucast fsize)
                    mf nh = Some (r, s')"
            by (auto simp: unfold)
          from ff [unfolded fo] obtain src4 where "source_heap s4 p = Some src4"
            "f \<in> set (flows src4)"
            by (cases rule: find_or_create_flow_cases) auto
          from manage_flow_wf [OF wf4 this mfl] show ?thesis .
        qed
      qed
    qed
  qed
qed

subsection \<open>The states of an engine in use\<close>

lemma enable_wf:
  assumes "dpi_reordering_enable_ipv6_fragmentation K c m n = Some s"
  shows "engine_wf K s"
proof -
  from assms have s: "s = \<lparr>table = replicate (unat n) [], total_used_mem = 0, table_size = n,
      timers = [], per_source_memory_limit = DEFAULT_PER_HOST_MEMORY_LIMIT K,
      total_memory_limit = DEFAULT_TOTAL_MEMORY_LIMIT K,
      timeout = DEFAULT_REASSEMBLY_TIMEOUT K, source_heap = Map.empty, flow_heap = Map.empty\<rparr>"
    by (auto simp: dpi_reordering_enable_ipv6_fragmentation_def split: if_splits)
  have "concat (replicate k ([] :: source_ptr list)) = []" for k
    by (induction k) simp_all
  then show ?thesis
    by (simp add: s engine_wf_def table_wf_def flows_wf_def timers_wf_def accounts_wf_def
          sources_in_table_def)
qed

lemma mem_limits [simp]:
  "flow_mem K (s\<lparr>per_source_memory_limit := l\<rparr>) = flow_mem K s"
  "flow_mem K (s\<lparr>total_memory_limit := l\<rparr>) = flow_mem K s"
  "flow_mem K (s\<lparr>timeout := t\<rparr>) = flow_mem K s"
  "source_mem (s\<lparr>per_source_memory_limit := l\<rparr>) = source_mem s"
  "source_mem (s\<lparr>total_memory_limit := l\<rparr>) = source_mem s"
  "source_mem (s\<lparr>timeout := t\<rparr>) = source_mem s"
  by (simp_all add: fun_eq_iff flow_mem_def source_mem_def)

lemma engine_wf_limits [simp]:
  "engine_wf K (s\<lparr>per_source_memory_limit := l\<rparr>) = engine_wf K s"
  "engine_wf K (s\<lparr>total_memory_limit := l\<rparr>) = engine_wf K s"
  "engine_wf K (s\<lparr>timeout := t\<rparr>) = engine_wf K s"
  by (simp_all add: engine_wf_def table_wf_def flows_wf_def timers_wf_def accounts_wf_def
        sources_in_table_def)

lemma reachable_wf: "reachable K s \<Longrightarrow> engine_wf K s"
proof (induction rule: reachable.induct)
  case (created calloc_state malloc_table n s)
  then show ?case by (rule enable_wf)
next
  case (fragment_managed s M mem us usize fs fsize off mf i nh now r s')
  then show ?case by (auto intro: manage_wf)
qed (simp_all add: dpi_reordering_ipv6_fragmentation_set_per_host_memory_limit_def
       dpi_reordering_ipv6_fragmentation_set_total_memory_limit_def
       dpi_reordering_ipv6_fragmentation_set_reassembly_timeout_def)

text \<open>
  C3. After every call of the entry point on an engine in use, the total memory counter
  is the sum of the memory counters of the sources that are in the table.
\<close>

theorem total_is_sum_of_sources:
  assumes "reachable K s"
    and "dpi_reordering_manage_ipv6_fragment K M mem s unfragmentable_start unfragmentable_size
           fragmentable_start fragmentable_size offset more_fragments identification
           next_header current_time = Some (r, s')"
  shows "total_used_mem s' = sum_list (map (source_mem s') (sources_in_table s'))"
proof -
  from assms have "reachable K s'"
    by (rule reachable.fragment_managed)
  then have "engine_wf K s'"
    by (rule reachable_wf)
  then show ?thesis
    by (simp add: engine_wf_def accounts_wf_def)
qed

lemma outcome_SomeD:
  assumes "outcome x = Some (a, b, c, d)"
  obtains s' where "x = Some (a, s')" "table s' = b" "timers s' = c" "total_used_mem s' = d"
  using assms by (auto simp: outcome_def)

lemma first_fragment_outcome:
  "outcome (dpi_reordering_manage_ipv6_fragment K0 (malloc_ok 1 1) (packet 1 9 payload8)
      engine0 0 40 48 8 0 1 7 59 0) = Some (None, [[], [], [], [1]], [1], 192)"
  by code_simp

theorem total_is_sum_of_sources_witness:
  "\<exists>s'. dpi_reordering_manage_ipv6_fragment K0 (malloc_ok 1 1) (packet 1 9 payload8)
           engine0 0 40 48 8 0 1 7 59 0 = Some (None, s')
        \<and> total_used_mem s' = sum_list (map (source_mem s') (sources_in_table s'))
        \<and> total_used_mem s' = 192 \<and> sources_in_table s' = [1]"
proof -
  from first_fragment_outcome obtain s' where
    s': "dpi_reordering_manage_ipv6_fragment K0 (malloc_ok 1 1) (packet 1 9 payload8)
           engine0 0 40 48 8 0 1 7 59 0 = Some (None, s')"
    "table s' = [[], [], [], [1]]" "total_used_mem s' = 192"
    by (rule outcome_SomeD)
  have "reachable K0 engine0"
    using enable_engine0 by (rule reachable.created)
  from total_is_sum_of_sources [OF this s'(1)] s' show ?thesis
    by (simp add: sources_in_table_def)
qed

subsection \<open>A datagram in one fragment\<close>

text \<open>
  C1, amended. On an engine in use, take a call with offset 0 and MF 0 that gets past
  the eviction loop and the sweep and creates its flow (the engine holds no flow for
  the source, the destination and the id). When the two buffers can be allocated, the
  fragmentable part is not empty, the unfragmentable part has more than 6 bytes and
  both together have at most 65535 bytes, the call returns the datagram: the
  unfragmentable part with \<open>next_header\<close> in byte 6 and the 16-bit payload length
  (unfragmentable size + fragmentable size - 40) in bytes 4 and 5, high byte first,
  followed by the fragmentable bytes. The flow is deleted again: the flows and the
  timers are those that the sweep left. The source is deleted when it has no other
  flow; when it has one, the state returned is the state that the sweep left.
\<close>

theorem single_fragment_datagram:
  assumes reach: "reachable K s"
    and src: "dpi_ipv6_fragmentation_find_or_create_source K M s (ip6_src mem us)
                = Some (Some p, s1)"
    and evict: "per_source_eviction K s1 p = Some (Go_on s2)"
    and sweep: "timer_sweep K s2 p now = Some (Go_on s3)"
    and created: "dpi_ipv6_fragmentation_find_or_create_flow K M s3 p idn (ip6_dst mem us) now
                = Some (Some f, s4)"
    and new: "flow_heap s3 f = None"
    and mb: "malloc_unfragmentable M" "malloc_datagram M"
    and sizes: "6 < unat usize" "0 < unat fsize" "unat usize + unat fsize \<le> 65535"
  shows "\<exists>s'. dpi_reordering_manage_ipv6_fragment K M mem s us usize fs fsize 0 0 idn nh now
           = Some (Some ((bytes_at mem us (unat usize))
                           [6 := nh,
                            4 := ucast (drop_bit 8 (usize + fsize - 40)),
                            5 := ucast (usize + fsize - 40)]
                         @ bytes_at mem fs (unat fsize)), s')
         \<and> flow_heap s' = flow_heap s3 \<and> timers s' = timers s3
         \<and> (if flows_of s3 p = []
             then dpi_ipv6_fragmentation_delete_source K s3 p = Some s'
                  \<and> source_heap s' p = None \<and> p \<notin> set (sources_in_table s')
             else s' = s3)"
proof -
  have wf1: "engine_wf K s1"
    using reachable_wf [OF reach] src by (rule find_or_create_source_wf)
  have wf2: "engine_wf K s2"
    using per_source_eviction_wf [OF wf1 evict] by simp
  have wf3: "engine_wf K s3"
    using timer_sweep_wf [OF wf2 sweep] by simp
  from created new obtain src3 where sp: "source_heap s3 p = Some src3"
    and s4: "s4 = s3\<lparr>source_heap := (source_heap s3)(p \<mapsto>
                  src3\<lparr>source_used_mem := source_used_mem src3 + sizeof_flow K,
                      flows := f # flows src3\<rparr>),
                total_used_mem := total_used_mem s3 + sizeof_flow K,
                timers := timers s3 @ [f],
                flow_heap := (flow_heap s3)(f \<mapsto>
                  \<lparr>unfragmentable = None, unfragmentable_length = 0, len = 0,
                   ident = idn, dstaddr = ip6_dst mem us, fragments = [],
                   timer_expiration_time = now + ucast (timeout s3), source = p\<rparr>)\<rparr>"
    by (cases rule: find_or_create_flow_cases) (auto simp: dpi_reassembly_add_timer_def)
  have nt: "f \<notin> set (timers s3)"
    using wf3 new by (auto simp: engine_wf_def timers_wf_def)
  have nc: "f \<notin> set (flows src3)"
    using wf3 new flows_wf_member [of s3 p src3 f] sp by (auto simp: engine_wf_def)
  define fl0 where "fl0 = \<lparr>unfragmentable = None, unfragmentable_length = 0, len = 0,
                           ident = idn, dstaddr = ip6_dst mem us, fragments = [],
                           timer_expiration_time = now + ucast (timeout s3), source = p\<rparr>"
  define u where "u = (bytes_at mem us (unat usize))[6 := nh]"
  define g where "g = \<lparr>frag_offset = 0, frag_end = (ucast fsize :: u32),
                        frag_ptr = bytes_at mem fs (unat fsize)\<rparr>"
  define fl6 where "fl6 = fl0\<lparr>unfragmentable := Some u, unfragmentable_length := usize,
                            len := fsize, fragments := [g]\<rparr>"
  define s5 where "s5 = s4\<lparr>flow_heap := (flow_heap s4)(f \<mapsto>
                             fl0\<lparr>unfragmentable := Some u, unfragmentable_length := usize\<rparr>),
                           total_used_mem := total_used_mem s4 + ucast usize,
                           source_heap := (source_heap s4)(p \<mapsto>
                             src3\<lparr>flows := f # flows src3,
                                  source_used_mem :=
                                    source_used_mem src3 + sizeof_flow K + ucast usize\<rparr>)\<rparr>"
  define s6 where "s6 = s5\<lparr>flow_heap := (flow_heap s5)(f \<mapsto> fl6),
                          total_used_mem := total_used_mem s5 + ucast fsize,
                          source_heap := (source_heap s5)(p \<mapsto>
                             src3\<lparr>flows := f # flows src3,
                                  source_used_mem :=
                                    source_used_mem src3 + sizeof_flow K + ucast usize
                                      + ucast fsize\<rparr>)\<rparr>"
  have 5: "store_unfragmentable K M mem s4 p f us usize nh = Some (Go_on s5)"
    using sizes(1)
    by (simp add: store_unfragmentable_def s4 s5_def fl0_def u_def mb)
  have nz: "(ucast fsize :: u32) \<noteq> 0" "fsize \<noteq> 0"
    using sizes(2) ucast_u16_u32_pos [of fsize] by (auto simp: unat_eq_zero)
  have ins: "dpi_reassembly_insert_fragment [] (bytes_at mem fs (unat fsize)) 0 (ucast fsize)
             = Some ([g], 0, ucast fsize)"
    using nz by (simp add: dpi_reassembly_insert_fragment_def g_def word_gt_0)
  have 6: "insert_and_check K M mem s5 p f fs fsize 0 (ucast fsize) 0
           = dpi_ipv6_fragmentation_build_complete_datagram K M s6 f"
    using nz
    by (simp add: insert_and_check_def s5_def s4 fl0_def ins ucast_u16_u32_u16 s6_def
          fl6_def dpi_reassembly_ip_check_train_of_contiguous_fragments_def g_def unat_eq_zero)
  have tot: "\<not> (65535 :: u32) < ucast usize + ucast fsize"
    using sizes(3) by (rule end_fits)
  have fh: "(flow_heap s3)(f := None) = flow_heap s3"
    using new by (rule fun_upd_idem)
  have sh: "(source_heap s3)(p \<mapsto> src3) = source_heap s3"
    using sp by (rule fun_upd_idem)
  have 7: "dpi_ipv6_fragmentation_delete_flow K s6 f = Some s3"
    using nt nc
    by (simp add: dpi_ipv6_fragmentation_delete_flow_def s6_def s5_def s4 fl6_def fl0_def
          g_def release_unfragmentable_def dpi_reassembly_delete_timer_def remove1_append)
       (simp add: fh sh)
  define final where "final = (if flows src3 = []
                               then dpi_ipv6_fragmentation_delete_source K s3 p else Some s3)"
  have 9: "delete_flow_and_empty_source K s6 f p = final"
    by (simp add: delete_flow_and_empty_source_def 7 sp final_def)
  have f6: "flow_heap s6 f = Some fl6"
    by (simp add: s6_def)
  have lenu: "length u = unat usize"
    by (simp add: u_def bytes_at_def)
  have 10: "dpi_ipv6_fragmentation_build_complete_datagram K M s6 f
         = map_option (Pair (Some ((u @ bytes_at mem fs (unat fsize))
                   [4 := ucast (drop_bit 8 (word_of_int (uint fsize + uint usize - 40) :: u16)),
                    5 := ucast (word_of_int (uint fsize + uint usize - 40) :: u16)]))) final"
    using sizes(1)
    by (simp add: dpi_ipv6_fragmentation_build_complete_datagram_def f6 fl6_def fl0_def tot mb
          dpi_reassembly_ip_compact_fragments_def g_def uint_ucast_u16_u32 uint_not_minus_1
          lenu 9 Let_def)
  have tot0: "\<not> (65535 :: u32) < ucast fsize"
    using sizes(3) by (simp add: word_less_nat_alt unat_ucast_u16_u32)
  have upd: "(u @ bytes_at mem fs (unat fsize))
               [4 := ucast (drop_bit 8 (usize + fsize - 40)), 5 := ucast (usize + fsize - 40)]
             = (bytes_at mem us (unat usize))
                 [6 := nh, 4 := ucast (drop_bit 8 (usize + fsize - 40)),
                  5 := ucast (usize + fsize - 40)] @ bytes_at mem fs (unat fsize)"
    using sizes(1) lenu by (simp add: list_update_append u_def)
  have "manage_flow K M mem s4 p f us usize fs fsize 0 (ucast fsize) 0 nh
        = map_option (Pair (Some ((u @ bytes_at mem fs (unat fsize))
            [4 := ucast (drop_bit 8 (usize + fsize - 40)), 5 := ucast (usize + fsize - 40)])))
            final"
    by (simp add: manage_flow_def s4 fl0_def)
       (simp add: 5 [unfolded s4 fl0_def] 6 10 add.commute [of fsize usize])
  then have run: "dpi_reordering_manage_ipv6_fragment K M mem s us usize fs fsize 0 0 idn nh now
      = map_option (Pair (Some ((bytes_at mem us (unat usize))
                           [6 := nh,
                            4 := ucast (drop_bit 8 (usize + fsize - 40)),
                            5 := ucast (usize + fsize - 40)]
                         @ bytes_at mem fs (unat fsize)))) final"
    by (simp add: dpi_reordering_manage_ipv6_fragment_def DPI_DEBUG_FRAGMENTATION_v6_defined_def
         DPI_IP_FRAGMENTATION_MAX_DATAGRAM_SIZE_def tot0 src evict sweep created upd)
  show ?thesis
  proof (cases "flows src3 = []")
    case False
    with run sp show ?thesis by (simp add: final_def flows_of_def)
  next
    case True
    have tw: "table_wf s3" using wf3 by (simp add: engine_wf_def)
    from table_wf_row [OF tw sp] have row: "unat (row src3) < length (table s3)"
      "p \<in> set (table s3 ! unat (row src3))" by simp_all
    define s' where "s' = s3\<lparr>table := (table s3)[unat (row src3) :=
                                        remove1 p (table s3 ! unat (row src3))],
                            source_heap := (source_heap s3)(p := None),
                            total_used_mem := total_used_mem s3 - sizeof_source K\<rparr>"
    have ds: "dpi_ipv6_fragmentation_delete_source K s3 p = Some s'"
      using row by (simp add: dpi_ipv6_fragmentation_delete_source_def sp True s'_def)
    have "engine_wf K s'"
      using wf3 ds by (rule delete_source_wf)
    then have "set (sources_in_table s') = dom (source_heap s')"
      by (simp add: engine_wf_def table_wf_dom)
    then have "p \<notin> set (sources_in_table s')"
      by (simp add: s'_def)
    with run ds True sp show ?thesis
      by (simp add: final_def s'_def flows_of_def)
  qed
qed

lemma goes_onD: "goes_on c \<Longrightarrow> \<exists>s. c = Go_on s"
  by (cases c) (simp_all add: goes_on_def)

lemma busy_host_result: "map_option fst busy_host = Some None"
  by code_simp

lemma busy_entry_result: "map_option fst busy_entry = Some (Some 1)"
  by code_simp

lemma busy_loop_result: "map_option goes_on busy_loop = Some True"
  by code_simp

lemma busy_sweep_result:
  "map_option (\<lambda>c. (goes_on c, flows_of (state_of c) 1, flow_heap (state_of c) 2 = None))
     busy_sweep = Some (True, [1], True)"
  by code_simp

lemma busy_flow_result: "map_option fst busy_flow = Some (Some 2)"
  by code_simp

theorem single_fragment_datagram_witness:
  "\<exists>s s3. busy_host = Some (None, s) \<and> busy_sweep = Some (Go_on s3)
     \<and> flows_of s3 1 = [1]
     \<and> dpi_reordering_manage_ipv6_fragment K0 (malloc_ok 2 2) (packet 1 9 payload8) s
          0 40 48 8 0 0 8 59 1
        = Some (Some ((ipv6_header 1 9)[6 := 59, 4 := 0, 5 := 8] @ payload8), s3)"
proof -
  from busy_host_result obtain s where a: "busy_host = Some (None, s)"
    by auto
  have "reachable K0 engine0"
    using enable_engine0 by (rule reachable.created)
  then have reach: "reachable K0 s"
    using a [unfolded busy_host_def] by (rule reachable.fragment_managed)
  from busy_entry_result obtain s1 where e: "busy_entry = Some (Some 1, s1)"
    by auto
  from e [unfolded busy_entry_def a]
  have h1: "dpi_ipv6_fragmentation_find_or_create_source K0 (malloc_ok 2 2) s
              (ip6_src (packet 1 9 payload8) 0) = Some (Some 1, s1)"
    by simp
  from busy_loop_result obtain s2 where l: "busy_loop = Some (Go_on s2)"
    by (auto dest: goes_onD)
  from l [unfolded busy_loop_def e]
  have h2: "per_source_eviction K0 s1 1 = Some (Go_on s2)"
    by simp
  from busy_sweep_result obtain s3 where w: "busy_sweep = Some (Go_on s3)"
    and chain: "flows_of s3 1 = [1]" and new: "flow_heap s3 2 = None"
    by (auto dest: goes_onD)
  from w [unfolded busy_sweep_def l]
  have h3: "timer_sweep K0 s2 1 1 = Some (Go_on s3)"
    by simp
  from busy_flow_result obtain s4 where c: "busy_flow = Some (Some 2, s4)"
    by auto
  from c [unfolded busy_flow_def w]
  have h4: "dpi_ipv6_fragmentation_find_or_create_flow K0 (malloc_ok 2 2) s3 1 8
              (ip6_dst (packet 1 9 payload8) 0) 1 = Some (Some 2, s4)"
    by simp
  have h5: "malloc_unfragmentable (malloc_ok 2 2)" "malloc_datagram (malloc_ok 2 2)"
    by (simp_all add: malloc_ok_def)
  have h6: "6 < unat (40 :: u16)" "0 < unat (8 :: u16)"
    "unat (40 :: u16) + unat (8 :: u16) \<le> 65535"
    by simp_all
  have payload: "bytes_at (packet 1 9 payload8) 48 8 = payload8"
    by code_simp
  from single_fragment_datagram [OF reach h1 h2 h3 h4 new h5 h6, of 48 59]
  obtain s' where run: "dpi_reordering_manage_ipv6_fragment K0 (malloc_ok 2 2)
        (packet 1 9 payload8) s 0 40 48 8 0 0 8 59 1
      = Some (Some ((bytes_at (packet 1 9 payload8) 0 (unat (40 :: u16)))
                      [6 := 59, 4 := ucast (drop_bit 8 (40 + 8 - 40 :: u16)),
                       5 := ucast (40 + 8 - 40 :: u16)]
                    @ bytes_at (packet 1 9 payload8) 48 (unat (8 :: u16))), s')"
    and final: "if flows_of s3 1 = [] then dpi_ipv6_fragmentation_delete_source K0 s3 1 = Some s'
                  \<and> source_heap s' 1 = None \<and> 1 \<notin> set (sources_in_table s')
                else s' = s3"
    by blast
  from final have "s' = s3"
    unfolding chain by simp
  with run
  have "dpi_reordering_manage_ipv6_fragment K0 (malloc_ok 2 2) (packet 1 9 payload8) s
          0 40 48 8 0 0 8 59 1
        = Some (Some ((ipv6_header 1 9)[6 := 59, 4 := 0, 5 := 8] @ payload8), s3)"
    by (simp add: header_of_packet payload)
  with a w chain show ?thesis by blast
qed

subsection \<open>The stored unfragmentable part\<close>

text \<open>The deletions only take flows away.\<close>

lemma prefix_stored_le:
  "prefix_stored s \<Longrightarrow> flow_heap s' \<subseteq>\<^sub>m flow_heap s \<Longrightarrow> prefix_stored s'"
  unfolding prefix_stored_def map_le_def by (metis domI)

lemma delete_flow_heap_le:
  "dpi_ipv6_fragmentation_delete_flow K s f = Some s1 \<Longrightarrow> flow_heap s1 \<subseteq>\<^sub>m flow_heap s"
  by (erule delete_flow_SomeD) (simp add: map_le_def)

lemma delete_flows_heap_le:
  "delete_flows K s fs = Some s1 \<Longrightarrow> flow_heap s1 \<subseteq>\<^sub>m flow_heap s"
proof (induction fs arbitrary: s)
  case Nil
  then show ?case by simp
next
  case (Cons f fs)
  then obtain s0 where "dpi_ipv6_fragmentation_delete_flow K s f = Some s0"
    "delete_flows K s0 fs = Some s1"
    by (auto split: option.splits)
  with Cons.IH delete_flow_heap_le show ?case
    by (blast intro: map_le_trans)
qed

lemma delete_source_heap_le:
  "dpi_ipv6_fragmentation_delete_source K s p = Some s1 \<Longrightarrow> flow_heap s1 \<subseteq>\<^sub>m flow_heap s"
  by (erule delete_source_SomeD) (auto dest: delete_flows_heap_le)

lemma delete_flow_and_empty_source_heap_le:
  "delete_flow_and_empty_source K s f p = Some s1 \<Longrightarrow> flow_heap s1 \<subseteq>\<^sub>m flow_heap s"
  by (auto simp: delete_flow_and_empty_source_def split: option.splits if_splits
        dest: delete_flow_heap_le delete_source_heap_le intro: map_le_trans)

lemma per_source_eviction_heap_le:
  assumes "per_source_eviction K s p = Some c"
  shows "flow_heap (state_of c) \<subseteq>\<^sub>m flow_heap s"
  by (rule per_source_eviction_preserves [where P = "\<lambda>x. flow_heap x \<subseteq>\<^sub>m flow_heap s", OF _ _ _ assms])
     (auto dest: delete_flow_heap_le delete_source_heap_le intro: map_le_trans)

lemma timer_sweep_heap_le:
  assumes "timer_sweep K s p now = Some c"
  shows "flow_heap (state_of c) \<subseteq>\<^sub>m flow_heap s"
  by (rule timer_sweep_preserves [where P = "\<lambda>x. flow_heap x \<subseteq>\<^sub>m flow_heap s", OF _ _ _ assms])
     (auto dest: delete_flow_heap_le delete_source_heap_le intro: map_le_trans)

lemma find_or_create_source_flow_heap:
  "dpi_ipv6_fragmentation_find_or_create_source K M s addr = Some (r, s1)
   \<Longrightarrow> flow_heap s1 = flow_heap s"
  by (erule find_or_create_source_cases) simp_all

lemma build_complete_datagram_heap_le:
  "dpi_ipv6_fragmentation_build_complete_datagram K M s f = Some (r, s')
   \<Longrightarrow> flow_heap s' \<subseteq>\<^sub>m flow_heap s"
  by (auto simp: dpi_ipv6_fragmentation_build_complete_datagram_def Let_def
        split: option.splits if_splits prod.splits
        dest: delete_flow_and_empty_source_heap_le)

lemma store_unfragmentable_prefix:
  assumes others: "\<And>g gl. g \<noteq> f \<Longrightarrow> flow_heap s g = Some gl \<Longrightarrow> unfragmentable gl \<noteq> None"
    and st: "store_unfragmentable K M mem' s p f us usize nh = Some c"
  shows "prefix_stored (state_of c)"
proof -
  from st obtain fl where f: "flow_heap s f = Some fl"
    by (auto simp: store_unfragmentable_def split: option.splits)
  show ?thesis
  proof (cases "unfragmentable fl")
    case (Some u)
    with st f have "c = Go_on s"
      by (auto simp: store_unfragmentable_def)
    moreover have "prefix_stored s"
      unfolding prefix_stored_def using others f Some by (metis option.discI option.inject)
    ultimately show ?thesis by simp
  next
    case None
    show ?thesis
    proof (cases "malloc_unfragmentable M")
      case False
      with st f None obtain s1 where del: "dpi_ipv6_fragmentation_delete_flow K s f = Some s1"
        and c: "c = Return_NULL s1"
        by (auto simp: store_unfragmentable_def)
      from del have "flow_heap s1 = (flow_heap s)(f := None)"
        by (rule delete_flow_SomeD) simp
      with others have "prefix_stored s1"
        by (auto simp: prefix_stored_def split: if_splits)
      with c show ?thesis by simp
    next
      case True
      with st f None obtain s1 u where c: "c = Go_on s1"
        and h: "flow_heap s1 = (flow_heap s)(f \<mapsto> fl\<lparr>unfragmentable := Some u,
                                 unfragmentable_length := usize\<rparr>)"
        by (auto simp: store_unfragmentable_def split: option.splits if_splits)
      from others have "prefix_stored s1"
        by (auto simp: prefix_stored_def h split: if_splits)
      with c show ?thesis by simp
    qed
  qed
qed

lemma insert_and_check_prefix:
  assumes ps: "prefix_stored s"
    and ic: "insert_and_check K M mem' s p f fs fsize off e mf = Some (r, s')"
  shows "prefix_stored s'"
  using ic
proof (cases rule: insert_and_check_cases)
  case dropped
  with ps show ?thesis by simp
next
  case (inserted fl fl1 src frags removed inserted s1)
  have "unfragmentable (fl1\<lparr>fragments := frags\<rparr>) = unfragmentable fl"
    by (simp add: inserted(3))
  with ps inserted(1) have "prefix_stored s1"
    by (auto simp: prefix_stored_def inserted(5) split: if_splits)
  with inserted(6) show ?thesis
    by (auto split: if_splits dest: build_complete_datagram_heap_le intro: prefix_stored_le)
qed

lemma manage_flow_prefix:
  assumes others: "\<And>g gl. g \<noteq> f \<Longrightarrow> flow_heap s g = Some gl \<Longrightarrow> unfragmentable gl \<noteq> None"
    and fresh: "\<And>fl. flow_heap s f = Some fl \<Longrightarrow> unfragmentable fl = None \<Longrightarrow> len fl = 0"
    and run: "manage_flow K M mem' s p f us usize fs fsize off e mf nh = Some (r, s')"
  shows "prefix_stored s'"
proof -
  from run obtain fl where f: "flow_heap s f = Some fl"
    by (auto simp: manage_flow_def split: option.splits)
  show ?thesis
  proof (cases "len fl \<noteq> 0 \<and> off > len fl")
    case True
    with run f have "s' = s" by (auto simp: manage_flow_def)
    moreover from True fresh [OF f] have "unfragmentable fl \<noteq> None" by auto
    with others f have "prefix_stored s"
      unfolding prefix_stored_def by (metis option.inject)
    ultimately show ?thesis by simp
  next
    case False
    with run f obtain c where st: "store_unfragmentable K M mem' s p f us usize nh = Some c"
      by (auto simp: manage_flow_def split: option.splits)
    from store_unfragmentable_prefix [OF others st] have pc: "prefix_stored (state_of c)" .
    show ?thesis
    proof (cases c)
      case (Return_NULL s1)
      with run f False st pc show ?thesis by (auto simp: manage_flow_def)
    next
      case (Go_on s1)
      with run f False st have "insert_and_check K M mem' s1 p f fs fsize off e mf = Some (r, s')"
        by (auto simp: manage_flow_def)
      with pc Go_on show ?thesis by (auto intro: insert_and_check_prefix)
    qed
  qed
qed

lemma manage_prefix:
  assumes ps: "prefix_stored s"
    and m: "dpi_reordering_manage_ipv6_fragment K M mem' s us usize fs fsize off mf i nh now
            = Some (r, s')"
  shows "prefix_stored s'"
proof (cases "(ucast off + ucast fsize :: u32) > 65535")
  case True
  with m ps show ?thesis
    by (simp add: dpi_reordering_manage_ipv6_fragment_def DPI_DEBUG_FRAGMENTATION_v6_defined_def
          DPI_IP_FRAGMENTATION_MAX_DATAGRAM_SIZE_def)
next
  case False
  note unfold = dpi_reordering_manage_ipv6_fragment_def DPI_DEBUG_FRAGMENTATION_v6_defined_def
          DPI_IP_FRAGMENTATION_MAX_DATAGRAM_SIZE_def False Let_def
  from m obtain sp s1 where
    fs: "dpi_ipv6_fragmentation_find_or_create_source K M s (ip6_src mem' us) = Some (sp, s1)"
    by (auto simp: unfold split: option.splits)
  have p1: "prefix_stored s1"
    using ps find_or_create_source_flow_heap [OF fs] by (simp add: prefix_stored_def)
  show ?thesis
  proof (cases sp)
    case None
    with m fs p1 show ?thesis by (auto simp: unfold)
  next
    case (Some p)
    with m fs obtain c2 where ev: "per_source_eviction K s1 p = Some c2"
      by (auto simp: unfold split: option.splits)
    have p2: "prefix_stored (state_of c2)"
      using p1 per_source_eviction_heap_le [OF ev] by (rule prefix_stored_le)
    show ?thesis
    proof (cases c2)
      case (Return_NULL s2)
      with m fs Some ev p2 show ?thesis by (auto simp: unfold)
    next
      case (Go_on s2)
      with m fs Some ev obtain c3 where sw: "timer_sweep K s2 p now = Some c3"
        by (auto simp: unfold split: option.splits)
      have p3: "prefix_stored (state_of c3)"
        using p2 timer_sweep_heap_le [OF sw] Go_on by (auto intro: prefix_stored_le)
      show ?thesis
      proof (cases c3)
        case (Return_NULL s3)
        with m fs Some ev Go_on sw p3 show ?thesis by (auto simp: unfold)
      next
        case c3: (Go_on s3)
        with m fs Some ev Go_on sw obtain fo s4 where
          ff: "dpi_ipv6_fragmentation_find_or_create_flow K M s3 p i (ip6_dst mem' us) now
               = Some (fo, s4)"
          by (auto simp: unfold split: option.splits)
        from p3 c3 have p3': "prefix_stored s3" by simp
        show ?thesis
        proof (cases fo)
          case None
          with ff have "s4 = s3"
            by (cases rule: find_or_create_flow_cases) auto
          with None m fs Some ev Go_on sw c3 ff p3' show ?thesis by (auto simp: unfold)
        next
          case fo: (Some f)
          with m fs Some ev Go_on sw c3 ff have
            mfl: "manage_flow K M mem' s4 p f us usize fs fsize off (ucast off + ucast fsize)
                    mf nh = Some (r, s')"
            by (auto simp: unfold)
          from ff [unfolded fo]
          have "(\<forall>g gl. g \<noteq> f \<longrightarrow> flow_heap s4 g = Some gl \<longrightarrow> unfragmentable gl \<noteq> None)
                \<and> (\<forall>fl. flow_heap s4 f = Some fl \<longrightarrow> unfragmentable fl = None \<longrightarrow> len fl = 0)"
            using p3' by (cases rule: find_or_create_flow_cases) (force simp: prefix_stored_def)+
          then show ?thesis
            by (intro manage_flow_prefix [OF _ _ mfl]) auto
        qed
      qed
    qed
  qed
qed

lemma reachable_prefix: "reachable K s \<Longrightarrow> prefix_stored s"
proof (induction rule: reachable.induct)
  case (created calloc_state malloc_table n s)
  then show ?case
    by (auto simp: dpi_reordering_enable_ipv6_fragmentation_def prefix_stored_def
          split: if_splits)
next
  case (fragment_managed s M mem us usize fs fsize off mf i nh now r s')
  then show ?case by (auto intro: manage_prefix)
qed (simp_all add: dpi_reordering_ipv6_fragmentation_set_per_host_memory_limit_def
       dpi_reordering_ipv6_fragmentation_set_total_memory_limit_def
       dpi_reordering_ipv6_fragmentation_set_reassembly_timeout_def prefix_stored_def)

text \<open>
  C10. After every call of the entry point on an engine in use, every flow of the engine
  has a stored unfragmentable part: a flow created by the call either got its part in
  that call or was deleted before the call returned.
\<close>

theorem stored_prefix_never_null:
  assumes "reachable K s"
    and "dpi_reordering_manage_ipv6_fragment K M mem s unfragmentable_start unfragmentable_size
           fragmentable_start fragmentable_size offset more_fragments identification
           next_header current_time = Some (r, s')"
    and "flow_heap s' f = Some fl"
  shows "unfragmentable fl \<noteq> None"
proof -
  from assms(1,2) have "reachable K s'"
    by (rule reachable.fragment_managed)
  then have "prefix_stored s'"
    by (rule reachable_prefix)
  with assms(3) show ?thesis
    by (simp add: prefix_stored_def)
qed

lemma flow_of_SomeD:
  assumes "flow_of x f = Some fl"
  obtains r s' where "x = Some (r, s')" "flow_heap s' f = Some fl"
  using assms by (cases x) (auto simp: flow_of_def)

lemma first_fragment_prefix:
  "map_option unfragmentable
     (flow_of (dpi_reordering_manage_ipv6_fragment K0 (malloc_ok 1 1) (packet 1 9 payload8)
        engine0 0 40 48 8 0 1 7 59 0) 1) = Some (Some ((ipv6_header 1 9)[6 := 59]))"
  by code_simp

theorem stored_prefix_never_null_witness:
  "\<exists>r s' fl. dpi_reordering_manage_ipv6_fragment K0 (malloc_ok 1 1) (packet 1 9 payload8)
           engine0 0 40 48 8 0 1 7 59 0 = Some (r, s')
        \<and> flow_heap s' 1 = Some fl \<and> unfragmentable fl \<noteq> None
        \<and> unfragmentable fl = Some ((ipv6_header 1 9)[6 := 59])"
proof -
  from first_fragment_prefix obtain fl where
    fl: "flow_of (dpi_reordering_manage_ipv6_fragment K0 (malloc_ok 1 1) (packet 1 9 payload8)
           engine0 0 40 48 8 0 1 7 59 0) 1 = Some fl"
    and u: "unfragmentable fl = Some ((ipv6_header 1 9)[6 := 59])"
    by (auto simp: map_option_case split: option.splits)
  from fl obtain r s' where
    s': "dpi_reordering_manage_ipv6_fragment K0 (malloc_ok 1 1) (packet 1 9 payload8)
           engine0 0 40 48 8 0 1 7 59 0 = Some (r, s')" "flow_heap s' 1 = Some fl"
    by (rule flow_of_SomeD)
  have "reachable K0 engine0"
    using enable_engine0 by (rule reachable.created)
  from stored_prefix_never_null [OF this s'] s' u show ?thesis
    by blast
qed

subsection \<open>The order of the flows of a source\<close>

text \<open>Positions in the timer list.\<close>

lemma precedes_in_set: "precedes ts g f \<Longrightarrow> g \<in> set ts \<and> f \<in> set ts"
  by (induction ts) (auto split: if_splits)

lemma precedes_append: "precedes ts g f \<Longrightarrow> precedes (ts @ us) g f"
  by (induction ts) (auto split: if_splits)

lemma precedes_append_new: "g \<in> set ts \<Longrightarrow> precedes (ts @ [f]) g f"
  by (induction ts) auto

lemma precedes_remove1:
  "precedes ts g f \<Longrightarrow> x \<noteq> g \<Longrightarrow> x \<noteq> f \<Longrightarrow> precedes (remove1 x ts) g f"
  by (induction ts) (auto split: if_splits)

lemma sorted_wrt_remove1: "sorted_wrt P xs \<Longrightarrow> sorted_wrt P (remove1 x xs)"
  by (induction xs) (auto dest: notin_set_remove1)

lemma precedes_before_remove1: "precedes (remove1 x ts) g f \<Longrightarrow> precedes ts g f"
proof (induction ts)
  case Nil
  then show ?case by simp
next
  case (Cons y ys)
  show ?case
  proof (cases "y = x")
    case True
    with Cons.prems have "precedes ys g f" by simp
    with precedes_in_set [OF this] show ?thesis by simp
  next
    case False
    with Cons show ?thesis
      using set_remove1_subset [of x ys] by (auto split: if_splits)
  qed
qed

text \<open>Every function of the engine keeps the chains in the order youngest first.\<close>

lemma youngest_firstD:
  "youngest_first s \<Longrightarrow> source_heap s p = Some src \<Longrightarrow>
   sorted_wrt (\<lambda>f g. precedes (timers s) g f) (flows src)"
  by (simp add: youngest_first_def)

lemma delete_flow_youngest_first:
  assumes wf: "engine_wf K s" and yf: "youngest_first s"
    and del: "dpi_ipv6_fragmentation_delete_flow K s f = Some s1"
  shows "youngest_first s1"
proof -
  have fw: "flows_wf s" using wf by (simp add: engine_wf_def)
  from del obtain fl src where *: "flow_heap s f = Some fl"
    "source_heap s (source fl) = Some src" "f \<in> set (flows src)"
    and s1: "s1 = s\<lparr>total_used_mem := total_used_mem s - flow_cost K fl,
            timers := remove1 f (timers s),
            source_heap := (source_heap s)(source fl \<mapsto>
              src\<lparr>source_used_mem := source_used_mem src - flow_cost K fl,
                  flows := remove1 f (flows src)\<rparr>),
            flow_heap := (flow_heap s)(f := None)\<rparr>"
    by (rule delete_flow_SomeD)
  show ?thesis
    unfolding youngest_first_def
  proof (intro allI impI)
    fix q srcq assume q: "source_heap s1 q = Some srcq"
    have "\<exists>srcq'. source_heap s q = Some srcq' \<and> flows srcq = remove1 f (flows srcq')"
    proof (cases "q = source fl")
      case True
      with q s1 * show ?thesis by auto
    next
      case False
      with q s1 have qs: "source_heap s q = Some srcq" by simp
      have "f \<notin> set (flows srcq)"
        using flows_wf_unique_owner [OF fw *(1) qs] False by blast
      with qs show ?thesis by (simp add: remove1_idem)
    qed
    then obtain srcq' where qs: "source_heap s q = Some srcq'"
      and fl': "flows srcq = remove1 f (flows srcq')" by blast
    have notf: "f \<notin> set (flows srcq)"
      using flows_wf_distinct [OF fw qs] by (simp add: fl')
    have "sorted_wrt (\<lambda>a b. precedes (timers s) b a) (flows srcq)"
      unfolding fl' using youngest_firstD [OF yf qs] by (rule sorted_wrt_remove1)
    then have "sorted_wrt (\<lambda>a b. precedes (remove1 f (timers s)) b a) (flows srcq)"
    proof (rule sorted_wrt_mono_rel [rotated])
      fix a b assume "a \<in> set (flows srcq)" "b \<in> set (flows srcq)" "precedes (timers s) b a"
      with notf show "precedes (remove1 f (timers s)) b a"
        by (intro precedes_remove1) auto
    qed
    then show "sorted_wrt (\<lambda>a b. precedes (timers s1) b a) (flows srcq)"
      by (simp add: s1)
  qed
qed


lemma youngest_first_same_chains:
  assumes "youngest_first s" "timers s' = timers s"
    and "\<And>p src'. source_heap s' p = Some src' \<Longrightarrow>
           \<exists>src. source_heap s p = Some src \<and> flows src = flows src'"
  shows "youngest_first s'"
  unfolding youngest_first_def
proof (intro allI impI)
  fix p src' assume "source_heap s' p = Some src'"
  from assms(3) [OF this] obtain src where "source_heap s p = Some src" "flows src = flows src'"
    by blast
  with youngest_firstD [OF assms(1)] assms(2)
  show "sorted_wrt (\<lambda>f g. precedes (timers s') g f) (flows src')"
    by fastforce
qed

lemma delete_flows_youngest_first:
  "engine_wf K s \<Longrightarrow> youngest_first s \<Longrightarrow> delete_flows K s fs = Some s'
   \<Longrightarrow> youngest_first s'"
proof (induction fs arbitrary: s)
  case Nil
  then show ?case by simp
next
  case (Cons f fs)
  from Cons.prems(3) obtain s1 where s1: "dpi_ipv6_fragmentation_delete_flow K s f = Some s1"
    "delete_flows K s1 fs = Some s'"
    by (auto split: option.splits)
  from Cons.IH [OF delete_flow_wf [OF Cons.prems(1) s1(1)]
      delete_flow_youngest_first [OF Cons.prems(1,2) s1(1)] s1(2)]
  show ?case .
qed

lemma delete_source_youngest_first:
  assumes "engine_wf K s" "youngest_first s"
    "dpi_ipv6_fragmentation_delete_source K s p = Some s'"
  shows "youngest_first s'"
proof -
  from assms(3) obtain src s1 where "source_heap s p = Some src"
    and fl: "delete_flows K s (flows src) = Some s1"
    and "unat (row src) < length (table s1)" "p \<in> set (table s1 ! unat (row src))"
    and s': "s' = s1\<lparr>table := (table s1)[unat (row src) := remove1 p (table s1 ! unat (row src))],
             source_heap := (source_heap s1)(p := None),
             total_used_mem := total_used_mem s1 - sizeof_source K\<rparr>"
    by (rule delete_source_SomeD)
  from delete_flows_youngest_first [OF assms(1,2) fl] show ?thesis
    by (rule youngest_first_same_chains) (auto simp: s' split: if_splits)
qed

lemma find_or_create_source_youngest_first:
  assumes "youngest_first s"
    "dpi_ipv6_fragmentation_find_or_create_source K M s addr = Some (r, s1)"
  shows "youngest_first s1"
  using assms(2)
proof (cases rule: find_or_create_source_cases)
  case same
  with assms(1) show ?thesis by simp
next
  case (new p h)
  show ?thesis
    unfolding youngest_first_def
  proof (intro allI impI)
    fix q srcq assume "source_heap s1 q = Some srcq"
    then show "sorted_wrt (\<lambda>f g. precedes (timers s1) g f) (flows srcq)"
      using youngest_firstD [OF assms(1), of q srcq]
      by (cases "q = p") (auto simp: new(4))
  qed
qed

lemma find_or_create_flow_youngest_first:
  assumes wf: "engine_wf K s" and yf: "youngest_first s"
    and fc: "dpi_ipv6_fragmentation_find_or_create_flow K M s p i d now = Some (r, s1)"
  shows "youngest_first s1"
  using fc
proof (cases rule: find_or_create_flow_cases)
  case none
  with yf show ?thesis by simp
next
  case (found f src fl)
  with yf show ?thesis by simp
next
  case (new f src)
  have fw: "flows_wf s" and tm: "timers_wf s"
    using wf by (simp_all add: engine_wf_def)
  show ?thesis
    unfolding youngest_first_def
  proof (intro allI impI)
    fix q srcq assume q: "source_heap s1 q = Some srcq"
    have t1: "timers s1 = timers s @ [f]" by (simp add: new(4))
    show "sorted_wrt (\<lambda>f g. precedes (timers s1) g f) (flows srcq)"
    proof (cases "q = p")
      case False
      with q have "source_heap s q = Some srcq" by (simp add: new(4))
      from youngest_firstD [OF yf this] show ?thesis
        unfolding t1 by (rule sorted_wrt_mono_rel [rotated]) (rule precedes_append)
    next
      case True
      with q have fl: "flows srcq = f # flows src" by (auto simp: new(4))
      have old: "sorted_wrt (\<lambda>a b. precedes (timers s @ [f]) b a) (flows src)"
        using youngest_firstD [OF yf new(3)]
        by (rule sorted_wrt_mono_rel [rotated]) (rule precedes_append)
      have "precedes (timers s @ [f]) g f" if "g \<in> set (flows src)" for g
      proof -
        from flows_wf_member [OF fw new(3) that] have "g \<in> dom (flow_heap s)" by auto
        with tm have "g \<in> set (timers s)" by (simp add: timers_wf_def)
        then show ?thesis by (rule precedes_append_new)
      qed
      with old show ?thesis by (simp add: fl t1)
    qed
  qed
qed

lemma store_unfragmentable_youngest_first:
  assumes wf: "engine_wf K s" and yf: "youngest_first s"
    and st: "store_unfragmentable K M mem' s p f us usize nh = Some c"
  shows "youngest_first (state_of c)"
proof (cases c)
  case (Return_NULL s1)
  with st have "dpi_ipv6_fragmentation_delete_flow K s f = Some s1"
    by (auto simp: store_unfragmentable_def split: option.splits if_splits)
  with delete_flow_youngest_first [OF wf yf] Return_NULL show ?thesis by simp
next
  case (Go_on s1)
  have "youngest_first s1"
    using yf
  proof (rule youngest_first_same_chains)
    show "timers s1 = timers s"
      using st Go_on by (auto simp: store_unfragmentable_def split: option.splits if_splits)
    fix q src' assume "source_heap s1 q = Some src'"
    with st Go_on show "\<exists>src. source_heap s q = Some src \<and> flows src = flows src'"
      by (auto simp: store_unfragmentable_def split: option.splits if_splits)
  qed
  with Go_on show ?thesis by simp
qed

lemma delete_flow_and_empty_source_youngest_first:
  assumes "engine_wf K s" "youngest_first s"
    "delete_flow_and_empty_source K s f p = Some s'"
  shows "youngest_first s'"
  using assms
  by (auto simp: delete_flow_and_empty_source_def split: option.splits if_splits
        intro: delete_flow_youngest_first delete_source_youngest_first delete_flow_wf)

lemma build_complete_datagram_youngest_first:
  assumes "engine_wf K s" "youngest_first s"
    "dpi_ipv6_fragmentation_build_complete_datagram K M s f = Some (r, s')"
  shows "youngest_first s'"
  using assms(3,1,2)
  by (auto simp: dpi_ipv6_fragmentation_build_complete_datagram_def Let_def
        split: option.splits if_splits prod.splits
        intro: delete_flow_and_empty_source_youngest_first)

lemma insert_and_check_youngest_first:
  assumes wf: "engine_wf K s" and yf: "youngest_first s"
    and p: "source_heap s p = Some src" and mem: "f \<in> set (flows src)"
    and ic: "insert_and_check K M mem' s p f fs fsize off e mf = Some (r, s')"
  shows "youngest_first s'"
  using ic
proof (cases rule: insert_and_check_cases)
  case dropped
  with yf show ?thesis by simp
next
  case (inserted fl fl1 src' frags removed inserted s1)
  from p inserted(2) have src': "src' = src" by simp
  have frs: "fragments fl1 = fragments fl" "unfragmentable_cost fl1 = unfragmentable_cost fl"
    "source fl1 = source fl"
    by (simp_all add: inserted(3))
  from insert_fragment_bytes [OF inserted(4)]
  have "fragment_bytes frags = fragment_bytes (fragments fl) + (inserted - removed)"
    by (simp add: frs algebra_simps)
  then have cost: "flow_cost K (fl1\<lparr>fragments := frags\<rparr>)
                   = flow_cost K fl + (inserted - removed)"
    by (simp add: flow_cost_def frs)
  have ss: "source (fl1\<lparr>fragments := frags\<rparr>) = source fl"
    by (simp add: frs)
  have wf1: "engine_wf K s1"
    by (rule charge_flow_wf [OF wf inserted(1) p mem ss cost inserted(5) [unfolded src']])
  have yf1: "youngest_first s1"
    using yf by (rule youngest_first_same_chains) (auto simp: inserted(5) inserted(2) split: if_splits)
  with inserted(6) build_complete_datagram_youngest_first [OF wf1 yf1] show ?thesis
    by (auto split: if_splits)
qed

lemma manage_flow_youngest_first:
  assumes wf: "engine_wf K s" and yf: "youngest_first s"
    and p: "source_heap s p = Some src" and mem: "f \<in> set (flows src)"
    and mf: "manage_flow K M mem' s p f us usize fs fsize off e mf nh = Some (r, s')"
  shows "youngest_first s'"
proof -
  from mf obtain fl where f: "flow_heap s f = Some fl"
    by (auto simp: manage_flow_def split: option.splits)
  show ?thesis
  proof (cases "len fl \<noteq> 0 \<and> off > len fl")
    case True
    with mf f yf show ?thesis by (auto simp: manage_flow_def)
  next
    case False
    with mf f obtain c where st: "store_unfragmentable K M mem' s p f us usize nh = Some c"
      by (auto simp: manage_flow_def split: option.splits)
    note yc = store_unfragmentable_youngest_first [OF wf yf st]
    show ?thesis
    proof (cases c)
      case (Return_NULL s1)
      with mf f False st yc show ?thesis by (auto simp: manage_flow_def)
    next
      case (Go_on s1)
      with mf f False st have ic: "insert_and_check K M mem' s1 p f fs fsize off e mf = Some (r, s')"
        by (auto simp: manage_flow_def)
      from store_unfragmentable_wf [OF wf p mem st] Go_on have wf1: "engine_wf K s1" by simp
      from yc Go_on have yf1: "youngest_first s1" by simp
      from store_unfragmentable_member [OF p mem st [unfolded Go_on]]
      obtain src1 where "source_heap s1 p = Some src1" "f \<in> set (flows src1)" by blast
      from insert_and_check_youngest_first [OF wf1 yf1 this ic] show ?thesis .
    qed
  qed
qed

lemma per_source_eviction_youngest_first:
  assumes "engine_wf K s" "youngest_first s" "per_source_eviction K s p = Some c"
  shows "youngest_first (state_of c)"
proof -
  have "engine_wf K (state_of c) \<and> youngest_first (state_of c)"
    by (rule per_source_eviction_preserves
          [where P = "\<lambda>x. engine_wf K x \<and> youngest_first x", OF _ _ _ assms(3)])
       (auto simp: assms intro: delete_flow_wf delete_source_wf delete_flow_youngest_first
          delete_source_youngest_first)
  then show ?thesis by simp
qed

lemma timer_sweep_youngest_first:
  assumes "engine_wf K s" "youngest_first s" "timer_sweep K s p now = Some c"
  shows "youngest_first (state_of c)"
proof -
  have "engine_wf K (state_of c) \<and> youngest_first (state_of c)"
    by (rule timer_sweep_preserves
          [where P = "\<lambda>x. engine_wf K x \<and> youngest_first x", OF _ _ _ assms(3)])
       (auto simp: assms intro: delete_flow_wf delete_source_wf delete_flow_youngest_first
          delete_source_youngest_first)
  then show ?thesis by simp
qed

lemma manage_youngest_first:
  assumes wf: "engine_wf K s" and yf: "youngest_first s"
    and m: "dpi_reordering_manage_ipv6_fragment K M mem' s us usize fs fsize off mf i nh now
            = Some (r, s')"
  shows "youngest_first s'"
proof (cases "(ucast off + ucast fsize :: u32) > 65535")
  case True
  with m yf show ?thesis
    by (simp add: dpi_reordering_manage_ipv6_fragment_def DPI_DEBUG_FRAGMENTATION_v6_defined_def
          DPI_IP_FRAGMENTATION_MAX_DATAGRAM_SIZE_def)
next
  case False
  note unfold = dpi_reordering_manage_ipv6_fragment_def DPI_DEBUG_FRAGMENTATION_v6_defined_def
          DPI_IP_FRAGMENTATION_MAX_DATAGRAM_SIZE_def False Let_def
  from m obtain sp s1 where
    fs: "dpi_ipv6_fragmentation_find_or_create_source K M s (ip6_src mem' us) = Some (sp, s1)"
    by (auto simp: unfold split: option.splits)
  have wf1: "engine_wf K s1"
    using wf fs by (rule find_or_create_source_wf)
  have yf1: "youngest_first s1"
    using yf fs by (rule find_or_create_source_youngest_first)
  show ?thesis
  proof (cases sp)
    case None
    with m fs yf1 show ?thesis by (auto simp: unfold)
  next
    case (Some p)
    with m fs obtain c2 where ev: "per_source_eviction K s1 p = Some c2"
      by (auto simp: unfold split: option.splits)
    have wf2: "engine_wf K (state_of c2)"
      using wf1 ev by (rule per_source_eviction_wf)
    have yf2: "youngest_first (state_of c2)"
      using wf1 yf1 ev by (rule per_source_eviction_youngest_first)
    show ?thesis
    proof (cases c2)
      case (Return_NULL s2)
      with m fs Some ev yf2 show ?thesis by (auto simp: unfold)
    next
      case (Go_on s2)
      with m fs Some ev obtain c3 where sw: "timer_sweep K s2 p now = Some c3"
        by (auto simp: unfold split: option.splits)
      have wf3: "engine_wf K (state_of c3)"
        using wf2 sw Go_on by (auto intro: timer_sweep_wf)
      have yf3: "youngest_first (state_of c3)"
        using wf2 yf2 sw Go_on by (auto intro: timer_sweep_youngest_first)
      show ?thesis
      proof (cases c3)
        case (Return_NULL s3)
        with m fs Some ev Go_on sw yf3 show ?thesis by (auto simp: unfold)
      next
        case c3: (Go_on s3)
        with m fs Some ev Go_on sw obtain fo s4 where
          ff: "dpi_ipv6_fragmentation_find_or_create_flow K M s3 p i (ip6_dst mem' us) now
               = Some (fo, s4)"
          by (auto simp: unfold split: option.splits)
        have wf4: "engine_wf K s4"
          using wf3 c3 ff by (auto intro: find_or_create_flow_wf)
        have yf4: "youngest_first s4"
          using wf3 yf3 c3 ff by (auto intro: find_or_create_flow_youngest_first)
        show ?thesis
        proof (cases fo)
          case None
          with m fs Some ev Go_on sw c3 ff yf4 show ?thesis by (auto simp: unfold)
        next
          case fo: (Some f)
          with m fs Some ev Go_on sw c3 ff have
            mfl: "manage_flow K M mem' s4 p f us usize fs fsize off (ucast off + ucast fsize)
                    mf nh = Some (r, s')"
            by (auto simp: unfold)
          from ff [unfolded fo] obtain src4 where "source_heap s4 p = Some src4"
            "f \<in> set (flows src4)"
            by (cases rule: find_or_create_flow_cases) auto
          from manage_flow_youngest_first [OF wf4 yf4 this mfl] show ?thesis .
        qed
      qed
    qed
  qed
qed

lemma youngest_first_limits [simp]:
  "youngest_first (s\<lparr>per_source_memory_limit := l\<rparr>) = youngest_first s"
  "youngest_first (s\<lparr>total_memory_limit := l\<rparr>) = youngest_first s"
  "youngest_first (s\<lparr>timeout := t\<rparr>) = youngest_first s"
  by (simp_all add: youngest_first_def)

lemma reachable_youngest_first: "reachable K s \<Longrightarrow> youngest_first s"
proof (induction rule: reachable.induct)
  case (created calloc_state malloc_table n s)
  then show ?case
    by (auto simp: dpi_reordering_enable_ipv6_fragmentation_def youngest_first_def
          split: if_splits)
next
  case (fragment_managed s M mem us usize fs fsize off mf i nh now r s')
  then show ?case by (auto intro: manage_youngest_first reachable_wf)
qed (simp_all add: dpi_reordering_ipv6_fragmentation_set_per_host_memory_limit_def
       dpi_reordering_ipv6_fragmentation_set_total_memory_limit_def
       dpi_reordering_ipv6_fragmentation_set_reassembly_timeout_def)

text \<open>The eviction loop takes flows from the head of the chain only.\<close>

lemma flows_of_Some [simp]: "source_heap s p = Some src \<Longrightarrow> flows_of s p = flows src"
  by (simp add: flows_of_def)

lemma flows_of_None [simp]: "source_heap s p = None \<Longrightarrow> flows_of s p = []"
  by (simp add: flows_of_def)

lemma delete_source_heap_None:
  "dpi_ipv6_fragmentation_delete_source K s p = Some s1 \<Longrightarrow> source_heap s1 p = None"
  by (erule delete_source_SomeD) simp

lemma per_source_eviction_takes_head:
  assumes "engine_wf K s" "youngest_first s" "per_source_eviction K s p = Some c"
  shows "\<exists>evicted. flows_of s p = evicted @ flows_of (state_of c) p
           \<and> (\<forall>f \<in> set evicted. flow_heap (state_of c) f = None)
           \<and> (\<forall>f \<in> set evicted. \<forall>g \<in> set (flows_of (state_of c) p).
                 precedes (timers s) g f)"
  using assms
proof (induction K s p arbitrary: c rule: per_source_eviction.induct)
  case (1 K state source')
  note wf = \<open>engine_wf K state\<close> and yf = \<open>youngest_first state\<close>
  note run = \<open>per_source_eviction K state source' = Some c\<close>
  from run obtain src where src: "source_heap state source' = Some src"
    by (subst (asm) per_source_eviction.simps) (auto split: option.splits)
  show ?case
  proof (cases "flows src")
    case Nil
    with run src have "c = Go_on state"
      by (subst (asm) per_source_eviction.simps) auto
    then show ?thesis by simp
  next
    case (Cons f fs)
    show ?thesis
    proof (cases "source_used_mem src > per_source_memory_limit state")
      case False
      with run src Cons have "c = Go_on state"
        by (subst (asm) per_source_eviction.simps) auto
      then show ?thesis by simp
    next
      case True
      with run src Cons obtain s1 src1 where
        del: "dpi_ipv6_fragmentation_delete_flow K state f = Some s1"
        and src1: "source_heap s1 source' = Some src1"
        and rest: "(if flows src1 = [] then map_option Return_NULL
                               (dpi_ipv6_fragmentation_delete_source K s1 source')
                           else per_source_eviction K s1 source') = Some c"
        by (subst (asm) per_source_eviction.simps) (auto split: option.splits)
      have fw: "flows_wf state" using wf by (simp add: engine_wf_def)
      from del obtain fl srcf where fl: "flow_heap state f = Some fl"
        and srcf: "source_heap state (source fl) = Some srcf"
        and s1: "s1 = state\<lparr>total_used_mem := total_used_mem state - flow_cost K fl,
            timers := remove1 f (timers state),
            source_heap := (source_heap state)(source fl \<mapsto>
              srcf\<lparr>source_used_mem := source_used_mem srcf - flow_cost K fl,
                  flows := remove1 f (flows srcf)\<rparr>),
            flow_heap := (flow_heap state)(f := None)\<rparr>"
        by (rule delete_flow_SomeD)
      have own: "source' = source fl"
        using flows_wf_unique_owner [OF fw fl src] Cons by simp
      with src srcf have "srcf = src" by simp
      with src1 s1 own Cons have chain1: "flows src1 = fs" by auto
      have gone1: "flow_heap s1 f = None" by (simp add: s1)
      have tm1: "timers s1 = remove1 f (timers state)" by (simp add: s1)
      have wf1: "engine_wf K s1" using wf del by (rule delete_flow_wf)
      have yf1: "youngest_first s1" using wf yf del by (rule delete_flow_youngest_first)
      have young: "\<forall>g \<in> set fs. precedes (timers state) g f"
        using youngest_firstD [OF yf src] Cons by simp
      show ?thesis
      proof (cases "flows src1 = []")
        case empty: True
        with rest obtain s2 where ds: "dpi_ipv6_fragmentation_delete_source K s1 source' = Some s2"
          and c: "c = Return_NULL s2" by auto
        from delete_source_heap_le [OF ds] gone1 have "flow_heap s2 f = None"
          by (metis domIff map_le_def not_Some_eq)
        moreover have "flows_of s2 source' = []"
          using delete_source_heap_None [OF ds] by simp
        moreover have "flows src = [f]" using Cons chain1 empty by simp
        ultimately show ?thesis using src c
          by (intro exI [of _ "[f]"]) simp
      next
        case False
        with rest have run1: "per_source_eviction K s1 source' = Some c" by simp
        from "1.IH" [OF src Cons True del src1 False wf1 yf1 run1]
        obtain evicted where ev: "flows_of s1 source' = evicted @ flows_of (state_of c) source'"
          "\<forall>f \<in> set evicted. flow_heap (state_of c) f = None"
          "\<forall>f \<in> set evicted. \<forall>g \<in> set (flows_of (state_of c) source').
                 precedes (timers s1) g f"
          by blast
        from per_source_eviction_heap_le [OF run1] gone1 have gone: "flow_heap (state_of c) f = None"
          by (metis domIff map_le_def not_Some_eq)
        have fs: "fs = evicted @ flows_of (state_of c) source'"
          using ev(1) src1 chain1 by simp
        have "flows_of state source' = (f # evicted) @ flows_of (state_of c) source'"
          using src Cons fs by simp
        moreover have "\<forall>a \<in> set (f # evicted). flow_heap (state_of c) a = None"
          using gone ev(2) by simp
        moreover have "\<forall>a \<in> set (f # evicted). \<forall>g \<in> set (flows_of (state_of c) source').
                 precedes (timers state) g a"
          using young fs ev(3) tm1 by (auto intro: precedes_before_remove1)
        ultimately show ?thesis by blast
      qed
    qed
  qed
qed

text \<open>
  C5, amended. When the eviction loop of the entry point runs on an engine in use, the
  flows it removes are the leading ones of the chain of the source, and each of them
  was created after every flow of the source that the loop keeps: the loop removes the
  youngest flows of the source, not the oldest.
\<close>

theorem eviction_removes_youngest_flows:
  assumes "reachable K s"
    and "dpi_ipv6_fragmentation_find_or_create_source K M s addr = Some (Some p, s1)"
    and "per_source_eviction K s1 p = Some c"
  shows "\<exists>evicted. flows_of s1 p = evicted @ flows_of (state_of c) p
           \<and> (\<forall>f \<in> set evicted. flow_heap (state_of c) f = None)
           \<and> (\<forall>f \<in> set evicted. \<forall>g \<in> set (flows_of (state_of c) p).
                 precedes (timers s1) g f)"
proof -
  have "engine_wf K s1"
    using reachable_wf [OF assms(1)] assms(2) by (rule find_or_create_source_wf)
  moreover have "youngest_first s1"
    using reachable_youngest_first [OF assms(1)] assms(2)
    by (rule find_or_create_source_youngest_first)
  ultimately show ?thesis
    using assms(3) by (rule per_source_eviction_takes_head)
qed

lemma first_of_two_flows:
  "map_option fst (dpi_reordering_manage_ipv6_fragment K0 (malloc_ok 1 1) (packet 1 9 payload8)
          (dpi_reordering_ipv6_fragmentation_set_per_host_memory_limit engine0 300)
          0 40 48 8 0 1 1 59 0) = Some None"
  by code_simp

lemma two_flows_result: "map_option fst two_flows = Some None"
  by code_simp

lemma eviction_entry_result:
  "map_option (\<lambda>(sp, s). (sp, flows_of s 1, timers s)) eviction_entry
   = Some (Some 1, [2, 1], [1, 2])"
  by code_simp

lemma eviction_loop_result:
  "map_option (\<lambda>c. (flows_of (state_of c) 1, flow_heap (state_of c) 2 = None)) eviction_loop
   = Some ([1], True)"
  by code_simp

theorem eviction_removes_youngest_flows_witness:
  "\<exists>s1 c. eviction_entry = Some (Some 1, s1) \<and> eviction_loop = Some c
      \<and> flows_of s1 1 = [2, 1] \<and> timers s1 = [1, 2] \<and> flows_of (state_of c) 1 = [1]
      \<and> flow_heap (state_of c) 2 = None \<and> precedes (timers s1) 1 2"
proof -
  let ?limited = "dpi_reordering_ipv6_fragmentation_set_per_host_memory_limit engine0 300"
  from first_of_two_flows obtain sa where
    a: "dpi_reordering_manage_ipv6_fragment K0 (malloc_ok 1 1) (packet 1 9 payload8)
          ?limited 0 40 48 8 0 1 1 59 0 = Some (None, sa)"
    by auto
  from two_flows_result obtain sb where b: "two_flows = Some (None, sb)"
    by auto
  from b [unfolded two_flows_def a] have b': "dpi_reordering_manage_ipv6_fragment K0 (malloc_ok 2 2) (packet 1 9 payload8)
          sa 0 40 48 8 0 1 2 59 1 = Some (None, sb)"
    by simp
  have "reachable K0 engine0"
    using enable_engine0 by (rule reachable.created)
  then have "reachable K0 ?limited"
    by (rule reachable.per_host_limit_set)
  then have "reachable K0 sa"
    using a by (rule reachable.fragment_managed)
  then have rb: "reachable K0 sb"
    using b' by (rule reachable.fragment_managed)
  from eviction_entry_result obtain s1 where
    e: "eviction_entry = Some (Some 1, s1)" and chain: "flows_of s1 1 = [2, 1]"
    and tm: "timers s1 = [1, 2]"
    by auto
  from e [unfolded eviction_entry_def b] have e': "dpi_ipv6_fragmentation_find_or_create_source K0 (malloc_ok 3 3) sb
            (ip6_src (packet 1 9 payload8) 0) = Some (Some 1, s1)"
    by simp
  from eviction_loop_result obtain c where
    l: "eviction_loop = Some c" and rest: "flows_of (state_of c) 1 = [1]"
    and gone: "flow_heap (state_of c) 2 = None"
    by auto
  from l [unfolded eviction_loop_def e] have l': "per_source_eviction K0 s1 1 = Some c"
    by simp
  from eviction_removes_youngest_flows [OF rb e' l'] obtain evicted where
    "flows_of s1 1 = evicted @ flows_of (state_of c) 1"
    "\<forall>f \<in> set evicted. \<forall>g \<in> set (flows_of (state_of c) 1). precedes (timers s1) g f"
    by blast
  then have "[2, 1] = evicted @ [1]" "\<forall>f \<in> set evicted. precedes (timers s1) 1 f"
    unfolding chain rest by simp_all
  then have "precedes (timers s1) 1 2"
    by auto
  with e l chain tm rest gone show ?thesis by blast
qed

subsection \<open>Scenarios\<close>

text \<open>
  C2 (the code differs). The claim: when the sweep deletes the flow of the head timer
  and the source that owned it has no flow left, that source is deleted, so no source
  without flows stays in the table. The code tests the chain of the source of the
  current fragment instead. In \<open>sweep_scenario\<close> the third call reaps the expired flow
  of source \<open>::1\<close> (address 1); the current source \<open>::2\<close> still has a flow, so source 1
  stays in bucket 3 of the table with no flow.
\<close>

theorem sweep_leaves_empty_source:
  "outcome sweep_scenario = Some (None, [[2], [], [], [1]], [2], 248)
   \<and> map_option flows (source_of sweep_scenario 1) = Some []
   \<and> map_option flows (source_of sweep_scenario 2) = Some [2]"
  by code_simp

text \<open>
  C7 (the code differs). The claim: when the train is contiguous and the compaction
  reports a mismatch, the flow is deleted. In \<open>mismatch_scenario\<close> the third call
  completes the train 0..24 of a datagram declared to be 16 bytes long: the compaction
  returns \<open>-1\<close>, the call returns \<^verbatim>\<open>NULL\<close>, and the flow (address 1) is still
  on its source's chain and on the timer list, with its 24 bytes.
\<close>

theorem compaction_mismatch_keeps_flow:
  "outcome mismatch_scenario = Some (None, [[], [], [], [1]], [1], 208)
   \<and> map_option flows (source_of mismatch_scenario 1) = Some [1]
   \<and> map_option len (flow_of mismatch_scenario 1) = Some 16
   \<and> map_option fragment_ends (flow_of mismatch_scenario 1) = Some [8, 16, 24]"
  by code_simp

text \<open>
  C4 as stated fails: in \<open>late_scenario\<close> the flow has the declared length 8 and holds
  a fragment that ends at byte 24, stored before the length was known.
\<close>

theorem fragment_beyond_declared_length:
  "map_option len (flow_of late_scenario 1) = Some 8
   \<and> map_option fragment_ends (flow_of late_scenario 1) = Some [8, 24]"
  by code_simp

text \<open>
  The engine \<open>late_state\<close> that the example of the late-start screen starts from is
  the one that the two calls of \<open>late_scenario\<close> leave.
\<close>

lemma late_state_is_left_by_late_scenario:
  "outcome late_scenario = Some (None, table late_state, timers late_state,
      total_used_mem late_state)
   \<and> source_of late_scenario 1 = source_heap late_state 1
   \<and> flow_of late_scenario 1 = flow_heap late_state 1"
  by code_simp

text \<open>
  C5 as stated fails: in \<open>eviction_scenario\<close> the source holds the flows of id 1
  (address 1, created at time 0) and id 2 (address 2, created at time 1) when the third
  call finds it over its limit. The loop deletes the flow of id 2, the younger one, and
  keeps the flow of id 1.
\<close>

theorem eviction_takes_youngest_flow:
  "map_option flows (source_of two_flows 1) = Some [2, 1]
   \<and> map_option timer_expiration_time (flow_of two_flows 1) = Some 30
   \<and> map_option timer_expiration_time (flow_of two_flows 2) = Some 31
   \<and> map_option flows (source_of eviction_scenario 1) = Some [3, 1]
   \<and> map_option ident (flow_of eviction_scenario 1) = Some 1
   \<and> flow_of eviction_scenario 2 = None"
  by code_simp

text \<open>
  A whole datagram on a fresh engine when the buffer of the datagram cannot be
  allocated: the call returns \<^verbatim>\<open>NULL\<close> and leaves the engine empty.
\<close>

lemma single_fragment_without_buffer:
  "outcome (dpi_reordering_manage_ipv6_fragment K0 ((malloc_ok 1 1)\<lparr>malloc_datagram := False\<rparr>)
      (packet 1 2 [0, 1, 2, 3]) engine0 0 40 48 4 0 0 1 59 0)
   = Some (None, [[], [], [], []], [], 0)"
  by code_simp

text \<open>
  C1 as stated fails: in \<open>expiry_scenario\<close> the second call carries a whole datagram
  (offset 0, MF 0) with an id the engine holds nothing for. The sweep reaps the expired
  flow of id 7, which empties the source of the fragment; the source is deleted and the
  call returns \<^verbatim>\<open>NULL\<close>. The same two calls with the second one at time 1, before
  the flow of id 7 expires, are those of \<open>busy_host\<close>, where the datagram is returned.
\<close>

theorem single_fragment_dropped_by_sweep:
  "outcome expiry_scenario = Some (None, [[], [], [], []], [], 0)"
  by code_simp

end
